theory Spec2Isabelle
  imports
    Complex_Main
    "HOL-Library.AList"
    "HOL-Library.Char_ord"
    "HOL-Library.List_Lexorder"
    "HOL-Library.Product_Lexorder"
begin

section \<open>Topic relationship graph and anomaly detection\<close>

text \<open>
  A shallow embedding of \<^verbatim>\<open>src/models/*.py\<close>, \<^verbatim>\<open>src/utils/graph_builder.py\<close> and the
  detectors of \<^verbatim>\<open>src/agents/validator.py\<close>.

  Conventions.
  \<^item> A Python \<^verbatim>\<open>str\<close> is a \<^typ>\<open>string\<close> holding its UTF-8 bytes; the arrow of the location
    strings is therefore three bytes. Splitting at a dot, joining and comparing strings
    give the same on the bytes as on the code points.
  \<^item> The built-ins \<^verbatim>\<open>str.isdigit\<close> and \<^verbatim>\<open>int\<close> depend on the Unicode database and on the
    interpreter's settings; the detectors take them as a parameter.
  \<^item> A Python \<^verbatim>\<open>dict\<close> is an association list in insertion order: assigning to a key that
    is present keeps its place, a new key goes to the end (\<^const>\<open>AList.update\<close>).
  \<^item> The pydantic \<^verbatim>\<open>Literal\<close> fields are datatypes, so an ill-typed tag cannot be built.
  \<^item> \<^verbatim>\<open>float\<close> fields are rationals; no claim looks at their rounding.
  \<^item> Logging is dropped.
\<close>

subsection \<open>Models (\<^verbatim>\<open>src/models\<close>)\<close>

record topic =
  topic_id :: string
  title :: string
  content :: string
  parent :: "string option"
  children :: "string list"
  cross_references :: "string list"
  forward_references :: "string list"
  backward_references :: "string list"
  position :: "(int \<times> int) option"
  confidence :: rat

datatype relationship_type =
  hierarchical | cross_reference | forward_reference | backward_reference

datatype relationship_status = valid | broken | ambiguous

datatype relationship_severity = rel_low | rel_medium | rel_high

record relationship =
  rel_source :: string
  rel_target :: string
  rel_type :: relationship_type
  rel_status :: relationship_status
  rel_context :: "string option"
  rel_severity :: "relationship_severity option"

datatype anomaly_type =
  missing_referenced_topic | broken_cross_reference | circular_reference
  | numbering_gap | duplicate_topic | orphan_content | ambiguous_boundary

datatype severity = low | medium | high | critical

record anomaly =
  an_type :: anomaly_type
  location :: string
  an_severity :: severity
  description :: string
  resolution_strategies :: "string list"
  affected_topics :: "string list"

text \<open>\<^verbatim>\<open>Anomaly(type=..., location=..., severity=..., description=..., affected_topics=...)\<close>:
  the resolution strategies take their default, the empty list.\<close>

definition Anomaly :: "anomaly_type \<Rightarrow> string \<Rightarrow> severity \<Rightarrow> string \<Rightarrow> string list \<Rightarrow> anomaly" where
  "Anomaly ty loc sev descr aff =
     \<lparr>an_type = ty, location = loc, an_severity = sev, description = descr,
      resolution_strategies = [], affected_topics = aff\<rparr>"

text \<open>\<^verbatim>\<open>Relationship(source=..., target=..., type=..., status="valid")\<close> as the builder
  writes it: context and severity take their default \<^verbatim>\<open>None\<close>.\<close>

definition Relationship :: "string \<Rightarrow> string \<Rightarrow> relationship_type \<Rightarrow> relationship" where
  "Relationship s t ty =
     \<lparr>rel_source = s, rel_target = t, rel_type = ty, rel_status = valid,
      rel_context = None, rel_severity = None\<rparr>"

subsection \<open>The graph store: \<^verbatim>\<open>networkx.DiGraph\<close>\<close>

text \<open>
  \<^verbatim>\<open>GraphBuilder.__init__\<close> creates a \<^verbatim>\<open>networkx.DiGraph\<close>. The library is not part of the
  repository; the three methods the builder calls are modelled from the library's
  documented behaviour:
  \<^item> a \<^verbatim>\<open>DiGraph\<close> keeps one attribute dictionary per node and one per ordered pair of
    nodes (it is not a multigraph);
  \<^item> \<^verbatim>\<open>add_node(n, **attr)\<close> adds \<^verbatim>\<open>n\<close> if it is new and updates its attributes with
    \<^verbatim>\<open>attr\<close>;
  \<^item> \<^verbatim>\<open>add_edge(u, v, **attr)\<close> first adds \<^verbatim>\<open>u\<close> and \<^verbatim>\<open>v\<close> as nodes with empty
    attributes when they are not in the graph, then updates the attribute dictionary of
    the pair \<^verbatim>\<open>(u, v)\<close> with \<^verbatim>\<open>attr\<close>, creating it if there is none.

  The node dictionary maps an id to \<^verbatim>\<open>{}\<close> (\<^const>\<open>None\<close>: a node that only \<^verbatim>\<open>add_edge\<close>
  created) or to the three attributes \<^verbatim>\<open>add_topic\<close> writes. The builder always passes
  the same four edge attributes, so an edge dictionary is a record of the four.
\<close>

record node_attrs =
  n_title :: string
  n_content :: string
  n_confidence :: rat

record edge_attrs =
  e_type :: relationship_type
  e_status :: relationship_status
  e_context :: "string option"
  e_severity :: "relationship_severity option"

record digraph =
  node :: "(string \<times> node_attrs option) list"
  adj :: "((string \<times> string) \<times> edge_attrs) list"

definition empty_graph :: digraph where
  "empty_graph = \<lparr>node = [], adj = []\<rparr>"

definition nodes :: "digraph \<Rightarrow> string list" where
  "nodes g = map fst (node g)"

definition has_edge :: "digraph \<Rightarrow> string \<Rightarrow> string \<Rightarrow> bool" where
  "has_edge g u v = ((u, v) \<in> set (map fst (adj g)))"

definition get_edge_data :: "digraph \<Rightarrow> string \<Rightarrow> string \<Rightarrow> edge_attrs option" where
  "get_edge_data g u v = map_of (adj g) (u, v)"

definition add_node :: "string \<Rightarrow> node_attrs \<Rightarrow> digraph \<Rightarrow> digraph" where
  "add_node n a g = g\<lparr>node := AList.update n (Some a) (node g)\<rparr>"

definition ensure_node :: "string \<Rightarrow> (string \<times> node_attrs option) list \<Rightarrow> (string \<times> node_attrs option) list" where
  "ensure_node n ns = (if n \<in> set (map fst ns) then ns else ns @ [(n, None)])"

definition add_edge :: "string \<Rightarrow> string \<Rightarrow> edge_attrs \<Rightarrow> digraph \<Rightarrow> digraph" where
  "add_edge u v a g =
     \<lparr>node = ensure_node v (ensure_node u (node g)),
      adj = AList.update (u, v) a (adj g)\<rparr>"

definition number_of_nodes :: "digraph \<Rightarrow> nat" where
  "number_of_nodes g = length (node g)"

definition number_of_edges :: "digraph \<Rightarrow> nat" where
  "number_of_edges g = length (adj g)"

definition out_degree :: "digraph \<Rightarrow> string \<Rightarrow> nat" where
  "out_degree g n = length (filter (\<lambda>e. fst (fst e) = n) (adj g))"

definition in_degree :: "digraph \<Rightarrow> string \<Rightarrow> nat" where
  "in_degree g n = length (filter (\<lambda>e. snd (fst e) = n) (adj g))"

text \<open>\<^verbatim>\<open>G.degree()\<close> of a directed graph: in-degree plus out-degree, a self-loop counted
  twice.\<close>

definition degree :: "digraph \<Rightarrow> string \<Rightarrow> nat" where
  "degree g n = in_degree g n + out_degree g n"

subsection \<open>\<^verbatim>\<open>GraphBuilder\<close>: mutation\<close>

definition add_topic :: "topic \<Rightarrow> digraph \<Rightarrow> digraph" where
  "add_topic t g =
     add_node (topic_id t)
       \<lparr>n_title = title t, n_content = content t, n_confidence = confidence t\<rparr> g"

definition add_relationship :: "relationship \<Rightarrow> digraph \<Rightarrow> digraph" where
  "add_relationship r g =
     add_edge (rel_source r) (rel_target r)
       \<lparr>e_type = rel_type r, e_status = rel_status r,
        e_context = rel_context r, e_severity = rel_severity r\<rparr> g"

text \<open>\<^verbatim>\<open>if topic.parent:\<close> is false for \<^verbatim>\<open>None\<close> and for the empty string.\<close>

definition parent_relationships :: "topic \<Rightarrow> relationship list" where
  "parent_relationships t =
     (case parent t of
        None \<Rightarrow> []
      | Some p \<Rightarrow> if p = [] then [] else [Relationship p (topic_id t) hierarchical])"

text \<open>The relationships the second loop of \<^verbatim>\<open>build_from_topics\<close> adds for one topic, in
  the order it adds them.\<close>

definition topic_relationships :: "topic \<Rightarrow> relationship list" where
  "topic_relationships t =
     parent_relationships t
     @ map (\<lambda>ref. Relationship (topic_id t) ref cross_reference) (cross_references t)
     @ map (\<lambda>ref. Relationship (topic_id t) ref forward_reference) (forward_references t)
     @ map (\<lambda>ref. Relationship (topic_id t) ref backward_reference) (backward_references t)"

definition build_from_topics :: "topic list \<Rightarrow> digraph \<Rightarrow> digraph" where
  "build_from_topics topics g =
     fold (\<lambda>t. fold add_relationship (topic_relationships t)) topics
       (fold add_topic topics g)"

subsection \<open>\<^verbatim>\<open>GraphBuilder\<close>: queries\<close>

text \<open>\<^verbatim>\<open>G.edges(data=True)\<close>: for every node in node order, its out-edges in the order they
  were first added.\<close>

definition edges :: "digraph \<Rightarrow> ((string \<times> string) \<times> edge_attrs) list" where
  "edges g = concat (map (\<lambda>n. filter (\<lambda>e. fst (fst e) = n) (adj g)) (nodes g))"

definition find_broken_references :: "digraph \<Rightarrow> relationship list" where
  "find_broken_references g =
     map (\<lambda>((source, target), data).
            \<lparr>rel_source = source, rel_target = target, rel_type = e_type data,
             rel_status = broken, rel_context = e_context data, rel_severity = Some rel_high\<rparr>)
       (filter (\<lambda>((source, target), data). target \<notin> set (nodes g)) (edges g))"

definition get_orphan_nodes :: "digraph \<Rightarrow> string list" where
  "get_orphan_nodes g =
     filter (\<lambda>n. in_degree g n = 0 \<and> out_degree g n = 0) (nodes g)"

text \<open>
  \<^verbatim>\<open>networkx.simple_cycles\<close> is library code. Its contract is to produce every elementary
  circuit of the graph once, self-loops included, as the list of its nodes; which node
  of a circuit comes first, and the order of the circuits, follow the library's hash
  iteration and are not fixed. The model below enumerates the circuits in a fixed way of
  its own: each circuit starts at its node that is earliest in the node dictionary, and
  the search from a start node runs through later nodes only.

  \<open>extend_cycles g start avail path\<close> lists the circuits through \<open>start\<close> that begin with
  \<open>path\<close> and continue through nodes of \<open>avail\<close>.
\<close>

function extend_cycles :: "digraph \<Rightarrow> string \<Rightarrow> string list \<Rightarrow> string list \<Rightarrow> string list list" where
  "extend_cycles g start avail path =
     (if has_edge g (last path) start then [path] else [])
     @ concat (map (\<lambda>w. extend_cycles g start (remove1 w avail) (path @ [w]))
                   (filter (has_edge g (last path)) avail))"
  by pat_completeness auto
termination
  by (relation "measure (\<lambda>(g, start, avail, path). length avail)")
     (auto simp: length_remove1 dest: length_pos_if_in_set)

declare extend_cycles.simps [simp del]

fun simple_cycles_from :: "digraph \<Rightarrow> string list \<Rightarrow> string list list" where
  "simple_cycles_from g [] = []"
| "simple_cycles_from g (v # rest) = extend_cycles g v rest [v] @ simple_cycles_from g rest"

definition simple_cycles :: "digraph \<Rightarrow> string list list" where
  "simple_cycles g = simple_cycles_from g (nodes g)"

text \<open>\<^verbatim>\<open>GraphBuilder.detect_circular_references\<close>: the library call does not raise on a
  \<^verbatim>\<open>DiGraph\<close>, so the \<^verbatim>\<open>except\<close> branch is never taken.\<close>

definition detect_circular_references :: "digraph \<Rightarrow> string list list" where
  "detect_circular_references g = simple_cycles g"

datatype py_error = IndexError | ZeroDivisionError

text \<open>Python's \<^verbatim>\<open>/\<close> on integers: the quotient as a float, \<^verbatim>\<open>ZeroDivisionError\<close> when
  the divisor is zero. The float is the rounding of the rational computed here.\<close>

definition truediv :: "int \<Rightarrow> int \<Rightarrow> py_error + rat" where
  "truediv a b = (if b = 0 then Inl ZeroDivisionError else Inr (of_int a / of_int b))"

record statistics =
  total_nodes :: nat
  total_edges :: nat
  orphan_nodes :: nat
  circular_references :: nat
  average_degree :: rat

definition get_statistics :: "digraph \<Rightarrow> py_error + statistics" where
  "get_statistics g =
     (case truediv (sum_list (map (\<lambda>n. int (degree g n)) (nodes g)))
                   (max (int (number_of_nodes g)) 1) of
        Inl e \<Rightarrow> Inl e
      | Inr avg \<Rightarrow>
          Inr \<lparr>total_nodes = number_of_nodes g,
               total_edges = number_of_edges g,
               orphan_nodes = length (get_orphan_nodes g),
               circular_references = length (detect_circular_references g),
               average_degree = avg\<rparr>)"

subsection \<open>Strings\<close>

text \<open>\<^verbatim>\<open>s.split(d)\<close> for a one-character separator: never empty.\<close>

fun split :: "char \<Rightarrow> string \<Rightarrow> string list" where
  "split d [] = [[]]"
| "split d (c # cs) =
     (if c = d then [] # split d cs
      else (case split d cs of [] \<Rightarrow> [[c]] | p # ps \<Rightarrow> (c # p) # ps))"

text \<open>\<^verbatim>\<open>sep.join(parts)\<close>.\<close>

fun join :: "string \<Rightarrow> string list \<Rightarrow> string" where
  "join sep [] = []"
| "join sep [p] = p"
| "join sep (p # q # ps) = p @ sep @ join sep (q # ps)"

text \<open>
  \<^verbatim>\<open>str.isdigit\<close> and \<^verbatim>\<open>int\<close> are built-ins of the interpreter, not code of the repository.
  Which characters \<^verbatim>\<open>isdigit\<close> accepts, and which of them \<^verbatim>\<open>int\<close> can read as decimal
  digits, is fixed by the Unicode database; \<^verbatim>\<open>int\<close> also raises \<^verbatim>\<open>ValueError\<close> on a string
  longer than the interpreter's limit for decimal strings (4300 by default, never below
  640 unless switched off). The detectors therefore take the two built-ins as a
  parameter: \<open>py_isdigit py s\<close> is \<^verbatim>\<open>s.isdigit()\<close>, and \<open>py_int py s\<close> is \<^verbatim>\<open>int(s)\<close>, with
  \<^const>\<open>None\<close> where it raises \<^verbatim>\<open>ValueError\<close>.
\<close>

record python =
  py_isdigit :: "string \<Rightarrow> bool"
  py_int :: "string \<Rightarrow> int option"

text \<open>What every interpreter answers on ASCII strings: \<^verbatim>\<open>isdigit\<close> holds of the non-empty
  strings of \<^verbatim>\<open>0\<close>..\<^verbatim>\<open>9\<close>, and \<^verbatim>\<open>int\<close> reads them in base ten.\<close>

definition isdigit :: "string \<Rightarrow> bool" where
  "isdigit s = (s \<noteq> [] \<and> list_all (\<lambda>c. c \<in> set ''0123456789'') s)"

definition int_of_digits :: "string \<Rightarrow> int" where
  "int_of_digits s = foldl (\<lambda>a c. 10 * a + (int (of_char c) - 48)) 0 s"



text \<open>An interpreter that knows the ASCII digits only, with the default limit: what
  CPython does on ASCII strings.\<close>

definition ascii_python :: python where
  "ascii_python =
     \<lparr>py_isdigit = isdigit,
      py_int = (\<lambda>s. if isdigit s \<and> length s \<le> 4300 then Some (int_of_digits s) else None)\<rparr>"



text \<open>\<^verbatim>\<open>str(n)\<close> for an integer.\<close>

function str_nat :: "nat \<Rightarrow> string" where
  "str_nat n =
     (if n < 10 then [''0123456789'' ! n]
      else str_nat (n div 10) @ [''0123456789'' ! (n mod 10)])"
  by pat_completeness auto
termination
  by (relation "measure id") auto

declare str_nat.simps [simp del]

definition str :: "int \<Rightarrow> string" where
  "str i = (if i < 0 then CHR ''-'' # str_nat (nat (- i)) else str_nat (nat i))"

text \<open>The separator \<^verbatim>\<open>" \<rightarrow> "\<close> of the location strings: a space, the UTF-8 bytes of
  U+2192, a space.\<close>

definition arrow :: string where
  "arrow = [CHR '' '', CHR 0xE2, CHR 0x86, CHR 0x92, CHR '' '']"

subsection \<open>\<^verbatim>\<open>ValidatorAgent\<close>: the detectors\<close>

text \<open>\<^verbatim>\<open>parent = topic.parent or "root"\<close>.\<close>

definition group_key :: "topic \<Rightarrow> string" where
  "group_key t = (case parent t of None \<Rightarrow> ''root'' | Some p \<Rightarrow> if p = [] then ''root'' else p)"

definition add_to_group :: "topic \<Rightarrow> (string \<times> string list) list \<Rightarrow> (string \<times> string list) list" where
  "add_to_group t topic_groups =
     (case map_of topic_groups (group_key t) of
        None \<Rightarrow> topic_groups @ [(group_key t, [topic_id t])]
      | Some ids \<Rightarrow> AList.update (group_key t) (ids @ [topic_id t]) topic_groups)"

definition topic_groups :: "topic list \<Rightarrow> (string \<times> string list) list" where
  "topic_groups topics = fold add_to_group topics []"

text \<open>The inner loop over \<^verbatim>\<open>children\<close>, with its \<^verbatim>\<open>try\<close>: \<^verbatim>\<open>parts[-1]\<close> raises \<^verbatim>\<open>IndexError\<close>
  on an empty list and \<^verbatim>\<open>int\<close> may raise \<^verbatim>\<open>ValueError\<close>; both are caught and the loop goes
  on with the next child.\<close>

definition numeric_children :: "python \<Rightarrow> string list \<Rightarrow> (int \<times> string) list" where
  "numeric_children py child_ids =
     concat (map (\<lambda>child_id.
        let parts = split CHR ''.'' child_id
        in if parts = [] then []
           else if py_isdigit py (last parts)
           then (case py_int py (last parts) of
                   None \<Rightarrow> []
                 | Some n \<Rightarrow> [(n, child_id)])
           else [])
      child_ids)"

definition construct_missing_id :: "string \<Rightarrow> int \<Rightarrow> string" where
  "construct_missing_id reference_id missing_num =
     (let parts = split CHR ''.'' reference_id
      in join ''.'' (butlast parts @ [str missing_num]))"

definition gap_anomaly :: "string \<Rightarrow> string \<Rightarrow> int \<Rightarrow> anomaly" where
  "gap_anomaly current_id next_id missing_num =
     Anomaly numbering_gap
       (''Between '' @ current_id @ '' and '' @ next_id)
       high
       (''Missing topic '' @ construct_missing_id current_id missing_num @ '' in sequence'')
       [current_id, next_id]"

text \<open>The loop \<^verbatim>\<open>for i in range(len(numeric_children) - 1)\<close> over adjacent entries;
  \<^verbatim>\<open>range(current_num + 1, next_num)\<close> is \<open>[current_num + 1..next_num - 1]\<close>.\<close>

fun gaps_between :: "(int \<times> string) list \<Rightarrow> anomaly list" where
  "gaps_between ((current_num, current_id) # (next_num, next_id) # rest) =
     (if next_num - current_num > 1
      then map (gap_anomaly current_id next_id) [current_num + 1..next_num - 1]
      else [])
     @ gaps_between ((next_num, next_id) # rest)"
| "gaps_between _ = []"

definition group_gaps :: "python \<Rightarrow> string list \<Rightarrow> anomaly list" where
  "group_gaps py child_ids =
     (let nc = numeric_children py child_ids
      in if nc = [] then [] else gaps_between (sort nc))"

definition check_numbering_gaps :: "python \<Rightarrow> topic list \<Rightarrow> anomaly list" where
  "check_numbering_gaps py topics =
     concat (map (\<lambda>(parent_id, child_ids). group_gaps py child_ids) (topic_groups topics))"

definition broken_anomaly :: "string \<Rightarrow> string \<Rightarrow> anomaly" where
  "broken_anomaly tid ref_id =
     Anomaly broken_cross_reference
       (tid @ arrow @ ref_id)
       high
       (''Topic '' @ tid @ '' references '' @ ref_id @ '', which does not exist'')
       [tid]"

definition all_refs :: "topic \<Rightarrow> string list" where
  "all_refs t = cross_references t @ forward_references t @ backward_references t"

definition validate_cross_references :: "topic list \<Rightarrow> anomaly list" where
  "validate_cross_references topics =
     (let topic_ids = set (map topic_id topics)
      in concat (map (\<lambda>t.
           concat (map (\<lambda>ref_id.
             if ref_id \<notin> topic_ids then [broken_anomaly (topic_id t) ref_id] else [])
           (all_refs t)))
         topics))"

definition cycle_anomaly :: "string list \<Rightarrow> string \<Rightarrow> anomaly" where
  "cycle_anomaly cycle first =
     Anomaly circular_reference
       (join arrow (cycle @ [first]))
       medium
       (''Circular reference detected involving '' @ str (int (length cycle)) @ '' topics'')
       cycle"

text \<open>The loop over the cycles; \<^verbatim>\<open>cycle[0]\<close> raises \<^verbatim>\<open>IndexError\<close> on an empty cycle.\<close>

fun cycle_anomalies :: "string list list \<Rightarrow> py_error + anomaly list" where
  "cycle_anomalies [] = Inr []"
| "cycle_anomalies (cycle # rest) =
     (case cycle of
        [] \<Rightarrow> Inl IndexError
      | first # _ \<Rightarrow>
          (case cycle_anomalies rest of
             Inl e \<Rightarrow> Inl e
           | Inr anomalies \<Rightarrow> Inr (cycle_anomaly cycle first # anomalies)))"

definition detect_circular_references_anomalies :: "digraph \<Rightarrow> py_error + anomaly list" where
  "detect_circular_references_anomalies g = cycle_anomalies (detect_circular_references g)"

definition orphan_anomaly :: "string \<Rightarrow> anomaly" where
  "orphan_anomaly orphan_id =
     Anomaly orphan_content
       orphan_id
       low
       (''Topic '' @ orphan_id @ '' has no connections to other topics'')
       [orphan_id]"

definition find_orphan_content :: "digraph \<Rightarrow> anomaly list" where
  "find_orphan_content g = map orphan_anomaly (get_orphan_nodes g)"

definition duplicate_anomaly :: "string \<Rightarrow> anomaly" where
  "duplicate_anomaly tid =
     Anomaly duplicate_topic tid critical (''Duplicate topic ID: '' @ tid) [tid]"

text \<open>The loop of \<^verbatim>\<open>_check_duplicates\<close>, with the dictionary \<^verbatim>\<open>seen_ids\<close> as its state.\<close>

fun check_duplicates_loop :: "topic list \<Rightarrow> (string \<times> topic) list \<Rightarrow> anomaly list" where
  "check_duplicates_loop [] seen_ids = []"
| "check_duplicates_loop (t # ts) seen_ids =
     (if topic_id t \<in> set (map fst seen_ids)
      then duplicate_anomaly (topic_id t) # check_duplicates_loop ts seen_ids
      else check_duplicates_loop ts (AList.update (topic_id t) t seen_ids))"

definition check_duplicates :: "topic list \<Rightarrow> anomaly list" where
  "check_duplicates topics = check_duplicates_loop topics []"

text \<open>
  \<^verbatim>\<open>_generate_resolution_strategies\<close> asks the language model for strategies for every
  anomaly of severity high or critical and stores them in the anomaly. The model is
  outside the repository: \<open>llm i a\<close> stands for what it answers for the anomaly \<open>a\<close> at
  position \<open>i\<close> of the list.
\<close>

definition generate_resolution_strategies :: "(nat \<Rightarrow> anomaly \<Rightarrow> string list) \<Rightarrow> anomaly list \<Rightarrow> anomaly list" where
  "generate_resolution_strategies llm anomalies =
     map (\<lambda>(i, a).
        if an_severity a \<in> {high, critical} then a\<lparr>resolution_strategies := llm i a\<rparr> else a)
      (enumerate 0 anomalies)"

definition validate :: "python \<Rightarrow> (nat \<Rightarrow> anomaly \<Rightarrow> string list) \<Rightarrow> topic list \<Rightarrow> digraph \<Rightarrow> py_error + anomaly list" where
  "validate py llm topics g =
     (case detect_circular_references_anomalies g of
        Inl e \<Rightarrow> Inl e
      | Inr cycles \<Rightarrow>
          Inr (generate_resolution_strategies llm
                 (check_numbering_gaps py topics
                  @ validate_cross_references topics
                  @ cycles
                  @ find_orphan_content g
                  @ check_duplicates topics)))"

section \<open>Well-formed graphs and example inputs\<close>

text \<open>
  What holds of every graph the builder can reach: the keys of the node dictionary and of
  the edge dictionary are distinct, and both ends of every edge are nodes.
\<close>

definition graph_inv :: "digraph \<Rightarrow> bool" where
  "graph_inv g =
     (distinct (nodes g) \<and> distinct (map fst (adj g))
      \<and> list_all (\<lambda>k. fst k \<in> set (nodes g) \<and> snd k \<in> set (nodes g)) (map fst (adj g)))"

text \<open>\<^verbatim>\<open>Topic(id=i, title="", content="")\<close>: every other field at its default.\<close>

definition Topic :: "string \<Rightarrow> topic" where
  "Topic i =
     \<lparr>topic_id = i, title = [], content = [], parent = None, children = [],
      cross_references = [], forward_references = [], backward_references = [],
      position = None, confidence = 95 / 100\<rparr>"

text \<open>The positions of a list of ids whose id also stands at an earlier position.\<close>

definition repeated_positions :: "string list \<Rightarrow> nat list" where
  "repeated_positions ids = filter (\<lambda>i. ids ! i \<in> set (take i ids)) [0..<length ids]"

definition dup_example :: "topic list" where
  "dup_example = [Topic ''7'', Topic ''8'', Topic ''7'']"

text \<open>The reference ids of a topic, in the order the detector reads them, that are the
  id of no topic of the list.\<close>

definition unknown_refs :: "topic list \<Rightarrow> topic \<Rightarrow> string list" where
  "unknown_refs topics t = filter (\<lambda>ref_id. ref_id \<notin> set (map topic_id topics)) (all_refs t)"

definition broken_example :: topic where
  "broken_example = (Topic ''1'')\<lparr>cross_references := [''99.9'']\<rparr>"

definition broken_twice_example :: topic where
  "broken_twice_example =
     (Topic ''1'')\<lparr>cross_references := [''99.9''], forward_references := [''99.9'']\<rparr>"

text \<open>The notions the numbering-gap claim is stated with: the trailing segment of an id,
  the numbered ids of a group with their numbers, the group keys in the order of their
  first occurrence, the ids of one group, adjacent entries of a list, and the anomalies
  for the integers strictly between two adjacent numbers.\<close>

definition last_segment :: "string \<Rightarrow> string" where
  "last_segment i = last (split CHR ''.'' i)"

definition numbered :: "python \<Rightarrow> string list \<Rightarrow> (int \<times> string) list" where
  "numbered py ids =
     List.map_filter
       (\<lambda>i. if py_isdigit py (last_segment i)
            then map_option (\<lambda>n. (n, i)) (py_int py (last_segment i))
            else None)
       ids"

definition first_occurrences :: "string list \<Rightarrow> string list" where
  "first_occurrences xs = rev (remdups (rev xs))"

definition group_ids :: "topic list \<Rightarrow> string \<Rightarrow> string list" where
  "group_ids topics p = map topic_id (filter (\<lambda>t. group_key t = p) topics)"

definition adjacent :: "(int \<times> string) list \<Rightarrow> ((int \<times> string) \<times> (int \<times> string)) list" where
  "adjacent xs = zip xs (tl xs)"

definition missing_between :: "(int \<times> string) \<times> (int \<times> string) \<Rightarrow> anomaly list" where
  "missing_between = (\<lambda>((a, ai), (b, bi)). map (gap_anomaly ai bi) [a + 1..b - 1])"



text \<open>The key and the attribute record \<^verbatim>\<open>add_relationship\<close> writes for a relationship, and
  all the relationships \<^verbatim>\<open>build_from_topics\<close> adds, in order.\<close>

definition rel_key :: "relationship \<Rightarrow> string \<times> string" where
  "rel_key r = (rel_source r, rel_target r)"

definition edge_of :: "relationship \<Rightarrow> edge_attrs" where
  "edge_of r =
     \<lparr>e_type = rel_type r, e_status = rel_status r,
      e_context = rel_context r, e_severity = rel_severity r\<rparr>"

definition all_relationships :: "topic list \<Rightarrow> relationship list" where
  "all_relationships topics = concat (map topic_relationships topics)"

text \<open>A topic of the list that takes part in no relationship: every topic with its id has
  no parent and no references, and no topic names its id as parent or reference.\<close>

definition isolated_topic :: "topic list \<Rightarrow> topic \<Rightarrow> bool" where
  "isolated_topic topics t =
     list_all (\<lambda>t'. (topic_id t' = topic_id t \<longrightarrow>
                        (parent t' = None \<or> parent t' = Some []) \<and> all_refs t' = [])
                   \<and> parent t' \<noteq> Some (topic_id t)
                   \<and> topic_id t \<notin> set (all_refs t'))
       topics"

definition referenced_example :: "topic list" where
  "referenced_example = [Topic ''A'', (Topic ''B'')\<lparr>cross_references := [''A'']\<rparr>]"

definition orphan_example :: "topic list" where
  "orphan_example = [Topic ''A'', (Topic ''B'')\<lparr>cross_references := [''C'']\<rparr>]"

text \<open>The attributes of the edge the builder writes for a parent field.\<close>

definition hierarchical_edge :: edge_attrs where
  "hierarchical_edge =
     \<lparr>e_type = hierarchical, e_status = valid, e_context = None, e_severity = None\<rparr>"

definition hierarchy_example :: "topic list" where
  "hierarchy_example = [Topic ''1'', (Topic ''1.1'')\<lparr>parent := Some ''1''\<rparr>]"

definition document_order_example :: "topic list" where
  "document_order_example =
     [(Topic ''1'')\<lparr>cross_references := [''1.1''], backward_references := [''1.1'']\<rparr>,
      (Topic ''1.1'')\<lparr>parent := Some ''1''\<rparr>]"

definition overwrite_example :: "topic list" where
  "overwrite_example =
     [(Topic ''1.1'')\<lparr>parent := Some ''1''\<rparr>, (Topic ''1'')\<lparr>cross_references := [''1.1'']\<rparr>]"

definition empty_parent_example :: "topic list" where
  "empty_parent_example = [(Topic ''1.1'')\<lparr>parent := Some []\<rparr>]"

text \<open>
  A simple cycle of the graph, as the list of its nodes: not empty, no node twice, an
  edge from each node to the next and from the last back to the first. The lists
  \<open>rotate n c\<close> are the same cycle written from another start node.
\<close>

definition is_simple_cycle :: "digraph \<Rightarrow> string list \<Rightarrow> bool" where
  "is_simple_cycle g c = (c \<noteq> [] \<and> distinct c \<and> successively (has_edge g) (c @ [hd c]))"

definition cycle_example :: "topic list" where
  "cycle_example =
     [(Topic ''A'')\<lparr>cross_references := [''B'']\<rparr>,
      (Topic ''B'')\<lparr>forward_references := [''C'']\<rparr>,
      (Topic ''C'')\<lparr>backward_references := [''A'']\<rparr>]"

definition acyclic_example :: "topic list" where
  "acyclic_example =
     [(Topic ''A'')\<lparr>cross_references := [''B'', ''C'']\<rparr>,
      (Topic ''B'')\<lparr>cross_references := [''C'']\<rparr>,
      Topic ''C'']"

definition order_example :: "topic list" where
  "order_example = [Topic ''1'', Topic ''3'', Topic ''3'']"

section \<open>Properties\<close>

subsection \<open>The graph store\<close>

lemma nodes_ensure_node:
  "map fst (ensure_node n ns) = (if n \<in> set (map fst ns) then map fst ns else map fst ns @ [n])"
  by (simp add: ensure_node_def)

lemma nodes_add_edge:
  "nodes (add_edge u v a g) =
     nodes g @ (if u \<in> set (nodes g) then [] else [u])
             @ (if v \<in> set (nodes g) \<or> v = u then [] else [v])"
  by (auto simp: add_edge_def nodes_def nodes_ensure_node)

lemma nodes_add_relationship:
  "nodes (add_relationship r g) =
     nodes g @ (if rel_source r \<in> set (nodes g) then [] else [rel_source r])
             @ (if rel_target r \<in> set (nodes g) \<or> rel_target r = rel_source r then [] else [rel_target r])"
  by (simp add: add_relationship_def nodes_add_edge)

lemma map_fst_update:
  "map fst (AList.update k v al) = (if k \<in> set (map fst al) then map fst al else map fst al @ [k])"
  by (induction al) auto

lemma nodes_add_topic:
  "nodes (add_topic t g) = (if topic_id t \<in> set (nodes g) then nodes g else nodes g @ [topic_id t])"
  by (simp add: add_topic_def add_node_def nodes_def map_fst_update)

lemma adj_add_topic [simp]: "adj (add_topic t g) = adj g"
  by (simp add: add_topic_def add_node_def)

lemma adj_add_relationship:
  "adj (add_relationship r g) =
     AList.update (rel_source r, rel_target r)
       \<lparr>e_type = rel_type r, e_status = rel_status r,
        e_context = rel_context r, e_severity = rel_severity r\<rparr> (adj g)"
  by (simp add: add_relationship_def add_edge_def)

lemma graph_inv_empty: "graph_inv empty_graph"
  by (simp add: graph_inv_def empty_graph_def nodes_def)

lemma graph_inv_add_topic: "graph_inv g \<Longrightarrow> graph_inv (add_topic t g)"
  by (auto simp: graph_inv_def nodes_add_topic list_all_iff)

lemma graph_inv_add_relationship: "graph_inv g \<Longrightarrow> graph_inv (add_relationship r g)"
  unfolding graph_inv_def list_all_iff
  by (auto simp: nodes_add_relationship adj_add_relationship map_fst_update)

lemma graph_inv_fold_add_relationship:
  "graph_inv g \<Longrightarrow> graph_inv (fold add_relationship rs g)"
  by (induction rs arbitrary: g) (auto simp: graph_inv_add_relationship)

lemma graph_inv_fold_add_topic:
  "graph_inv g \<Longrightarrow> graph_inv (fold add_topic ts g)"
  by (induction ts arbitrary: g) (auto simp: graph_inv_add_topic)

lemma graph_inv_fold_topic_relationships:
  "graph_inv g \<Longrightarrow> graph_inv (fold (\<lambda>t. fold add_relationship (topic_relationships t)) ts g)"
  by (induction ts arbitrary: g) (auto simp: graph_inv_fold_add_relationship)

lemma graph_inv_build_from_topics:
  "graph_inv g \<Longrightarrow> graph_inv (build_from_topics topics g)"
  by (simp add: build_from_topics_def graph_inv_fold_add_topic graph_inv_fold_topic_relationships)

lemma find_broken_references_empty:
  assumes "graph_inv g"
  shows "find_broken_references g = []"
proof -
  have "\<And>e. e \<in> set (edges g) \<Longrightarrow> snd (fst e) \<in> set (nodes g)"
    using assms by (auto simp: edges_def graph_inv_def list_all_iff)
  then have "filter (\<lambda>((source, target), data). target \<notin> set (nodes g)) (edges g) = []"
    by (auto simp: filter_empty_conv)
  then show ?thesis
    by (simp add: find_broken_references_def)
qed

text \<open>
  Claim C1. The claim reads: adding a relationship whose target is not a known node
  creates the edge and leaves the set of nodes unchanged, with no placeholder node for
  the unknown target. The store is a \<^verbatim>\<open>networkx.DiGraph\<close>, whose \<^verbatim>\<open>add_edge\<close> adds
  both ends as nodes: after adding the relationship from \<^verbatim>\<open>A\<close> to the unknown \<^verbatim>\<open>Z\<close>,
  \<^verbatim>\<open>Z\<close> is a node, with empty attributes. This makes the test
  \<^verbatim>\<open>target not in self.graph.nodes()\<close> of \<^verbatim>\<open>find_broken_references\<close> false for every edge
  (\<open>find_broken_references_empty\<close>): the reference to \<^verbatim>\<open>Z\<close> is not found broken.
\<close>

theorem add_relationship_unknown_target_adds_node:
  "nodes (add_topic (Topic ''A'') empty_graph) = [''A'']
   \<and> nodes (add_relationship (Relationship ''A'' ''Z'' cross_reference)
              (add_topic (Topic ''A'') empty_graph)) = [''A'', ''Z'']
   \<and> node (add_relationship (Relationship ''A'' ''Z'' cross_reference)
              (add_topic (Topic ''A'') empty_graph)) ! 1 = (''Z'', None)
   \<and> find_broken_references
         (add_relationship (Relationship ''A'' ''Z'' cross_reference)
            (add_topic (Topic ''A'') empty_graph)) = []"
  by code_simp

lemma count_key_update:
  "distinct (map fst al) \<Longrightarrow> length (filter (\<lambda>e. fst e = k) (AList.update k v al)) = 1"
  by (induction al) (auto simp: filter_empty_conv image_iff)

text \<open>
  Claim C3, as stated: after adding a relationship from \<open>s\<close> to \<open>t\<close> of one type and then
  one of another type, both edges are present and the first is not changed. It fails:
  on the empty graph, a hierarchical relationship from \<^verbatim>\<open>A\<close> to \<^verbatim>\<open>B\<close> followed by a
  cross-reference from \<^verbatim>\<open>A\<close> to \<^verbatim>\<open>B\<close> leaves one edge, tagged as a cross-reference.
\<close>

theorem add_relationship_same_pair_counterexample:
  "adj (add_relationship (Relationship ''A'' ''B'' cross_reference)
         (add_relationship (Relationship ''A'' ''B'' hierarchical) empty_graph))
   = [((''A'', ''B''),
       \<lparr>e_type = cross_reference, e_status = valid, e_context = None, e_severity = None\<rparr>)]"
  by code_simp

text \<open>
  Claim C3, amended: on a well-formed graph, after adding a relationship from \<open>s\<close> to
  \<open>t\<close> and then a second one from \<open>s\<close> to \<open>t\<close>, the graph holds exactly one edge from
  \<open>s\<close> to \<open>t\<close>; it carries the type, status, context and severity of the second
  relationship, and the second addition does not change the number of edges.
\<close>

theorem add_relationship_same_pair_overwrites:
  assumes "graph_inv g"
    and "rel_source r2 = rel_source r1" and "rel_target r2 = rel_target r1"
  shows "get_edge_data (add_relationship r2 (add_relationship r1 g)) (rel_source r1) (rel_target r1)
           = Some \<lparr>e_type = rel_type r2, e_status = rel_status r2,
                   e_context = rel_context r2, e_severity = rel_severity r2\<rparr>
         \<and> length (filter (\<lambda>e. fst e = (rel_source r1, rel_target r1))
                     (adj (add_relationship r2 (add_relationship r1 g)))) = 1
         \<and> number_of_edges (add_relationship r2 (add_relationship r1 g))
             = number_of_edges (add_relationship r1 g)"
proof -
  let ?g1 = "add_relationship r1 g"
  have inv1: "graph_inv ?g1"
    using assms(1) by (rule graph_inv_add_relationship)
  have d: "distinct (map fst (adj ?g1))"
    using inv1 by (simp add: graph_inv_def)
  have k: "(rel_source r1, rel_target r1) \<in> set (map fst (adj ?g1))"
    by (simp add: adj_add_relationship map_fst_update)
  have "length (map fst (adj (add_relationship r2 ?g1))) = length (map fst (adj ?g1))"
    using k assms(2,3) by (simp only: adj_add_relationship [of r2] map_fst_update) simp
  then have n: "number_of_edges (add_relationship r2 ?g1) = number_of_edges ?g1"
    by (simp add: number_of_edges_def)
  show ?thesis
    using assms(2,3) d n
    by (simp add: get_edge_data_def adj_add_relationship [of r2] update_conv' count_key_update)
qed

theorem add_relationship_same_pair_overwrites_witness:
  "graph_inv empty_graph
   \<and> get_edge_data (add_relationship (Relationship ''A'' ''B'' cross_reference)
                     (add_relationship (Relationship ''A'' ''B'' hierarchical) empty_graph))
        ''A'' ''B''
      = Some \<lparr>e_type = cross_reference, e_status = valid, e_context = None, e_severity = None\<rparr>
   \<and> number_of_edges (add_relationship (Relationship ''A'' ''B'' cross_reference)
                     (add_relationship (Relationship ''A'' ''B'' hierarchical) empty_graph)) = 1"
  using add_relationship_same_pair_overwrites
          [of empty_graph "Relationship ''A'' ''B'' cross_reference" "Relationship ''A'' ''B'' hierarchical"]
        graph_inv_empty
  by (simp add: Relationship_def number_of_edges_def adj_add_relationship empty_graph_def)

text \<open>
  Claim C10: for every graph, the empty one included, \<^verbatim>\<open>get_statistics\<close> returns a result
  and does not fail; its average degree is the sum of the node degrees divided by the
  larger of the node count and 1, which is 0 on a graph without nodes.
\<close>

theorem get_statistics_total:
  "\<exists>s. get_statistics g = Inr s
       \<and> average_degree s
           = of_int (sum_list (map (\<lambda>n. int (degree g n)) (nodes g)))
             / of_int (max (int (number_of_nodes g)) 1)
       \<and> (number_of_nodes g = 0 \<longrightarrow> average_degree s = 0)"
  by (auto simp: get_statistics_def truediv_def number_of_nodes_def nodes_def)

theorem get_statistics_total_witness:
  "number_of_nodes empty_graph = 0
   \<and> (\<exists>s. get_statistics empty_graph = Inr s \<and> average_degree s = 0)"
  using get_statistics_total [of empty_graph]
  by (auto simp: number_of_nodes_def empty_graph_def)

subsection \<open>The duplicate detector\<close>

lemma filter_upt_Suc:
  "filter P [0..<Suc n] = (if P 0 then [0] else []) @ map Suc (filter (\<lambda>i. P (Suc i)) [0..<n])"
proof -
  have "[0..<Suc n] = 0 # map Suc [0..<n]"
    by (simp add: upt_conv_Cons map_Suc_upt del: upt_Suc)
  then show ?thesis
    by (simp add: filter_map comp_def del: upt_Suc)
qed

lemma check_duplicates_loop_positions_aux:
  "K = fst ` set seen \<Longrightarrow>
   check_duplicates_loop ts seen =
     map (\<lambda>i. duplicate_anomaly (map topic_id ts ! i))
       (filter (\<lambda>i. map topic_id ts ! i \<in> K \<union> set (take i (map topic_id ts)))
          [0..<length ts])"
proof (induction ts arbitrary: seen K)
  case Nil
  then show ?case by simp
next
  case (Cons t ts)
  let ?ids = "map topic_id ts"
  let ?f = "\<lambda>i. duplicate_anomaly (?ids ! i)"
  have split: "\<And>P. map (\<lambda>i. duplicate_anomaly (map topic_id (t # ts) ! i))
            (filter (\<lambda>i. P (map topic_id (t # ts) ! i) (set (take i (map topic_id (t # ts)))))
               [0..<length (t # ts)])
        = (if P (topic_id t) {} then [duplicate_anomaly (topic_id t)] else [])
          @ map ?f (filter (\<lambda>i. P (?ids ! i) (insert (topic_id t) (set (take i ?ids))))
                      [0..<length ts])"
    by (simp add: filter_upt_Suc comp_def del: upt_Suc)
  show ?case
  proof (cases "topic_id t \<in> K")
    case True
    have eq: "filter (\<lambda>i. ?ids ! i \<in> K \<union> insert (topic_id t) (set (take i ?ids))) [0..<length ts]
        = filter (\<lambda>i. ?ids ! i \<in> K \<union> set (take i ?ids)) [0..<length ts]"
      using True by (intro filter_cong refl) auto
    have "check_duplicates_loop (t # ts) seen
        = duplicate_anomaly (topic_id t) # check_duplicates_loop ts seen"
      using True Cons.prems by simp
    also have "check_duplicates_loop ts seen
        = map ?f (filter (\<lambda>i. ?ids ! i \<in> K \<union> set (take i ?ids)) [0..<length ts])"
      using Cons.prems by (rule Cons.IH)
    finally show ?thesis
      using True by (simp only: split [of "\<lambda>x A. x \<in> K \<union> A"] eq) simp
  next
    case False
    have K': "insert (topic_id t) K = fst ` set (AList.update (topic_id t) t seen)"
      using Cons.prems by (simp add: dom_update)
    have eq: "filter (\<lambda>i. ?ids ! i \<in> K \<union> insert (topic_id t) (set (take i ?ids))) [0..<length ts]
        = filter (\<lambda>i. ?ids ! i \<in> insert (topic_id t) K \<union> set (take i ?ids)) [0..<length ts]"
      by (intro filter_cong refl) auto
    have "check_duplicates_loop (t # ts) seen
        = check_duplicates_loop ts (AList.update (topic_id t) t seen)"
      using False Cons.prems by simp
    also have "\<dots> = map ?f (filter (\<lambda>i. ?ids ! i \<in> insert (topic_id t) K \<union> set (take i ?ids))
                            [0..<length ts])"
      using K' by (rule Cons.IH)
    finally show ?thesis
      using False by (simp only: split [of "\<lambda>x A. x \<in> K \<union> A"] eq) simp
  qed
qed

lemma check_duplicates_loop_count_aux:
  "K = fst ` set seen \<Longrightarrow>
   length (filter (\<lambda>a. location a = x) (check_duplicates_loop ts seen)) =
     (if x \<in> K then count_list (map topic_id ts) x
      else count_list (map topic_id ts) x - 1)"
proof (induction ts arbitrary: seen K)
  case Nil
  then show ?case by simp
next
  case (Cons t ts)
  have loc: "location (duplicate_anomaly (topic_id t)) = topic_id t"
    by (simp add: duplicate_anomaly_def Anomaly_def)
  show ?case
  proof (cases "topic_id t \<in> K")
    case True
    have "length (filter (\<lambda>a. location a = x) (check_duplicates_loop ts seen)) =
       (if x \<in> K then count_list (map topic_id ts) x else count_list (map topic_id ts) x - 1)"
      using Cons.prems by (rule Cons.IH)
    with True Cons.prems show ?thesis
      by (auto simp: loc)
  next
    case False
    have K': "insert (topic_id t) K = fst ` set (AList.update (topic_id t) t seen)"
      using Cons.prems by (simp add: dom_update)
    have "length (filter (\<lambda>a. location a = x) (check_duplicates_loop ts (AList.update (topic_id t) t seen))) =
       (if x \<in> insert (topic_id t) K then count_list (map topic_id ts) x
        else count_list (map topic_id ts) x - 1)"
      using K' by (rule Cons.IH)
    with False Cons.prems show ?thesis
      by auto
  qed
qed

lemma check_duplicates_fields:
  "a \<in> set (check_duplicates_loop ts seen) \<Longrightarrow>
     an_type a = duplicate_topic \<and> an_severity a = critical \<and> affected_topics a = [location a]
     \<and> resolution_strategies a = []"
proof (induction ts arbitrary: seen)
  case Nil
  then show ?case by simp
next
  case (Cons t ts)
  show ?case
  proof (cases "topic_id t \<in> set (map fst seen)")
    case True
    with Cons.prems have "a = duplicate_anomaly (topic_id t) \<or> a \<in> set (check_duplicates_loop ts seen)"
      by simp
    then show ?thesis
      using Cons.IH [of seen] by (auto simp: duplicate_anomaly_def Anomaly_def)
  next
    case False
    with Cons.prems have "a \<in> set (check_duplicates_loop ts (AList.update (topic_id t) t seen))"
      by simp
    then show ?thesis
      by (rule Cons.IH)
  qed
qed

text \<open>
  Claim C6: walking the list in order, the duplicate detector emits one \<^verbatim>\<open>duplicate_topic\<close>
  anomaly of severity critical for every position whose id already stands at an earlier
  position, and nothing for a first occurrence. So an id that occurs \<open>k\<close> times is
  reported \<open>k - 1\<close> times; an id that occurs exactly twice is reported once, at its
  second occurrence.
\<close>

theorem check_duplicates_later_occurrences:
  "check_duplicates topics =
     map (\<lambda>i. duplicate_anomaly (map topic_id topics ! i))
       (repeated_positions (map topic_id topics))
   \<and> (\<forall>x. length (filter (\<lambda>a. location a = x) (check_duplicates topics))
          = count_list (map topic_id topics) x - 1)
   \<and> (\<forall>a \<in> set (check_duplicates topics).
          an_type a = duplicate_topic \<and> an_severity a = critical
          \<and> affected_topics a = [location a])"
proof (intro conjI allI ballI)
  show "check_duplicates topics =
     map (\<lambda>i. duplicate_anomaly (map topic_id topics ! i))
       (repeated_positions (map topic_id topics))"
    using check_duplicates_loop_positions_aux [of "{}" "[]" topics]
    by (simp add: check_duplicates_def repeated_positions_def)
next
  fix x
  show "length (filter (\<lambda>a. location a = x) (check_duplicates topics))
          = count_list (map topic_id topics) x - 1"
    using check_duplicates_loop_count_aux [of "{}" "[]" x topics]
    by (simp add: check_duplicates_def)
next
  fix a
  assume "a \<in> set (check_duplicates topics)"
  then have *: "an_type a = duplicate_topic \<and> an_severity a = critical \<and> affected_topics a = [location a]
     \<and> resolution_strategies a = []"
    unfolding check_duplicates_def by (rule check_duplicates_fields)
  from * show "an_type a = duplicate_topic" by simp
  from * show "an_severity a = critical" by simp
  from * show "affected_topics a = [location a]" by simp
qed

theorem check_duplicates_later_occurrences_witness:
  "check_duplicates dup_example = [duplicate_anomaly ''7'']
   \<and> count_list (map topic_id dup_example) ''7'' = 2
   \<and> length (filter (\<lambda>a. location a = ''7'') (check_duplicates dup_example)) = 1
   \<and> an_severity (duplicate_anomaly ''7'') = critical"
proof -
  note inst = check_duplicates_later_occurrences [of dup_example]
  have ids: "map topic_id dup_example = [''7'', ''8'', ''7'']"
    by (simp add: dup_example_def Topic_def)
  have pos: "repeated_positions [''7'', ''8'', ''7''] = [2]"
    by code_simp
  have cnt: "count_list [''7'', ''8'', ''7''] ''7'' = 2"
    by code_simp
  have 1: "check_duplicates dup_example = [duplicate_anomaly ''7'']"
    using inst by (simp add: ids pos)
  have 2: "length (filter (\<lambda>a. location a = ''7'') (check_duplicates dup_example)) = 1"
    using conjunct1 [OF conjunct2 [OF inst], THEN spec, of "''7''"] by (simp add: ids cnt)
  have "\<forall>a \<in> set (check_duplicates dup_example). an_severity a = critical"
    using conjunct2 [OF conjunct2 [OF inst]] by blast
  then have 3: "an_severity (duplicate_anomaly ''7'') = critical"
    by (simp add: 1)
  show ?thesis
    using 1 2 3 by (simp add: ids cnt)
qed

subsection \<open>The broken-reference detector\<close>

lemma concat_map_if:
  "concat (map (\<lambda>x. if P x then [f x] else []) xs) = map f (filter P xs)"
  by (induction xs) auto

lemma validate_cross_references_eq:
  "validate_cross_references topics =
     concat (map (\<lambda>t. map (broken_anomaly (topic_id t)) (unknown_refs topics t)) topics)"
  by (simp add: validate_cross_references_def unknown_refs_def Let_def concat_map_if)

text \<open>
  Claim C5, as stated: one anomaly for every unknown id in the union of a topic's three
  reference lists. It fails where an unknown id stands in two of the lists, as it does
  for every reference the repository's parser extracts (it enters each reference into
  \<^verbatim>\<open>cross_references\<close> and into \<^verbatim>\<open>forward_references\<close> or \<^verbatim>\<open>backward_references\<close>): the
  topic \<^verbatim>\<open>1\<close> with \<^verbatim>\<open>99.9\<close> in its cross-references and in its forward references gets two
  anomalies for the one missing id.
\<close>

theorem validate_cross_references_union_counterexample:
  "validate_cross_references [broken_twice_example]
   = [broken_anomaly ''1'' ''99.9'', broken_anomaly ''1'' ''99.9'']"
  by (simp add: validate_cross_references_eq unknown_refs_def all_refs_def
        broken_twice_example_def Topic_def)

text \<open>
  Claim C5, amended: the detector reads, for every topic in list order, the concatenation
  of its cross-references, forward references and backward references, and emits one
  \<^verbatim>\<open>broken_cross_reference\<close> anomaly for every entry that is the id of no topic of the list
  (an id that stands \<open>k\<close> times in the concatenation gives \<open>k\<close> anomalies), with severity
  high, the location \<^verbatim>\<open>source\<close>, arrow, \<^verbatim>\<open>target\<close> and the source as the one affected
  topic; a topic whose three lists together hold one entry, an unknown id, gives exactly
  one anomaly.
\<close>

theorem validate_cross_references_occurrences:
  "validate_cross_references topics =
     concat (map (\<lambda>t. map (broken_anomaly (topic_id t)) (unknown_refs topics t)) topics)
   \<and> (\<forall>s r. an_type (broken_anomaly s r) = broken_cross_reference
          \<and> an_severity (broken_anomaly s r) = high
          \<and> location (broken_anomaly s r) = s @ arrow @ r
          \<and> affected_topics (broken_anomaly s r) = [s])
   \<and> (\<forall>t r. all_refs t = [r] \<and> r \<noteq> topic_id t
          \<longrightarrow> validate_cross_references [t] = [broken_anomaly (topic_id t) r])"
  by (simp add: validate_cross_references_eq unknown_refs_def broken_anomaly_def Anomaly_def)

theorem validate_cross_references_occurrences_witness:
  "all_refs broken_example = [''99.9'']
   \<and> ''99.9'' \<noteq> topic_id broken_example
   \<and> validate_cross_references [broken_example] = [broken_anomaly ''1'' ''99.9'']
   \<and> an_severity (broken_anomaly ''1'' ''99.9'') = high"
proof -
  note inst = validate_cross_references_occurrences [of "[broken_example]"]
  have refs: "all_refs broken_example = [''99.9'']"
    by (simp add: all_refs_def broken_example_def Topic_def)
  have tid: "topic_id broken_example = ''1''"
    by (simp add: broken_example_def Topic_def)
  have "validate_cross_references [broken_example] = [broken_anomaly (topic_id broken_example) ''99.9'']"
    using conjunct2 [OF conjunct2 [OF inst], THEN spec, THEN spec, of broken_example "''99.9''"]
    by (simp add: refs tid)
  moreover have "an_severity (broken_anomaly ''1'' ''99.9'') = high"
    using conjunct1 [OF conjunct2 [OF inst]] by blast
  ultimately show ?thesis
    by (simp add: refs tid)
qed

subsection \<open>The numbering-gap detector\<close>

lemma gaps_between_adjacent:
  "gaps_between xs = concat (map missing_between (adjacent xs))"
proof (induction xs rule: gaps_between.induct)
  case (1 current_num current_id next_num next_id rest)
  have "\<not> next_num - current_num > 1 \<Longrightarrow> [current_num + 1..next_num - 1] = []"
    by simp
  with 1 show ?case
    by (auto simp: adjacent_def missing_between_def)
qed (simp_all add: adjacent_def)

lemma split_nonempty: "split d s \<noteq> []"
  by (induction s) (auto split: list.splits)

lemma numeric_children_numbered: "numeric_children py ids = numbered py ids"
  by (induction ids)
     (auto simp: numeric_children_def numbered_def last_segment_def Let_def split_nonempty
        List.map_filter_simps split: option.splits)

lemma group_gaps_eq:
  "group_gaps py ids = concat (map missing_between (adjacent (sort (numbered py ids))))"
  by (simp add: group_gaps_def numeric_children_numbered gaps_between_adjacent Let_def adjacent_def)



lemma first_occurrences_snoc:
  "first_occurrences (xs @ [x]) =
     (if x \<in> set xs then first_occurrences xs else first_occurrences xs @ [x])"
  by (simp add: first_occurrences_def)

lemma set_first_occurrences [simp]: "set (first_occurrences xs) = set xs"
  by (simp add: first_occurrences_def)

lemma distinct_first_occurrences [simp]: "distinct (first_occurrences xs)"
  by (simp add: first_occurrences_def)

lemma map_of_map_keys:
  "map_of (map (\<lambda>p. (p, F p)) ks) k = (if k \<in> set ks then Some (F k) else None)"
  by (induction ks) auto

lemma update_map_keys:
  "k \<in> set ks \<Longrightarrow> distinct ks \<Longrightarrow>
   AList.update k v (map (\<lambda>p. (p, F p)) ks) = map (\<lambda>p. (p, if p = k then v else F p)) ks"
  by (induction ks) auto

lemma group_ids_snoc:
  "group_ids (ts @ [t]) p = group_ids ts p @ (if group_key t = p then [topic_id t] else [])"
  by (simp add: group_ids_def)

lemma group_ids_empty: "p \<notin> set (map group_key ts) \<Longrightarrow> group_ids ts p = []"
  by (auto simp: group_ids_def filter_empty_conv)

lemma topic_groups_eq:
  "topic_groups topics =
     map (\<lambda>p. (p, group_ids topics p)) (first_occurrences (map group_key topics))"
proof (induction topics rule: rev_induct)
  case Nil
  then show ?case
    by (simp add: topic_groups_def first_occurrences_def)
next
  case (snoc t ts)
  let ?k = "group_key t"
  let ?ks = "first_occurrences (map group_key ts)"
  have step: "topic_groups (ts @ [t]) = add_to_group t (topic_groups ts)"
    by (simp add: topic_groups_def)
  show ?case
  proof (cases "?k \<in> set (map group_key ts)")
    case True
    then have "add_to_group t (topic_groups ts)
        = map (\<lambda>p. (p, if p = ?k then group_ids ts ?k @ [topic_id t] else group_ids ts p)) ?ks"
      by (simp add: add_to_group_def snoc.IH map_of_map_keys update_map_keys)
    also have "\<dots> = map (\<lambda>p. (p, group_ids (ts @ [t]) p)) ?ks"
      by (rule map_cong) (auto simp: group_ids_snoc)
    finally show ?thesis
      using True by (simp add: step first_occurrences_snoc)
  next
    case False
    then have "add_to_group t (topic_groups ts)
        = map (\<lambda>p. (p, group_ids ts p)) ?ks @ [(?k, [topic_id t])]"
      by (simp add: add_to_group_def snoc.IH map_of_map_keys)
    also have "map (\<lambda>p. (p, group_ids ts p)) ?ks = map (\<lambda>p. (p, group_ids (ts @ [t]) p)) ?ks"
      using False by (intro map_cong refl) (auto simp: group_ids_snoc)
    also have "[(?k, [topic_id t])] = [(?k, group_ids (ts @ [t]) ?k)]"
      using False by (simp add: group_ids_snoc group_ids_empty)
    finally show ?thesis
      using False by (simp add: step first_occurrences_snoc)
  qed
qed

lemma check_numbering_gaps_eq:
  "check_numbering_gaps py topics =
     concat (map (\<lambda>p. concat (map missing_between
                                (adjacent (sort (numbered py (group_ids topics p))))))
               (first_occurrences (map group_key topics)))"
  by (simp add: check_numbering_gaps_def topic_groups_eq group_gaps_eq comp_def)






subsection \<open>What the builder leaves in the graph\<close>

lemma add_relationship_adj:
  "adj (add_relationship r g) = AList.update (rel_key r) (edge_of r) (adj g)"
  by (simp add: adj_add_relationship rel_key_def edge_of_def)

lemma fold_topic_relationships:
  "fold (\<lambda>t. fold add_relationship (topic_relationships t)) topics g
     = fold add_relationship (all_relationships topics) g"
  by (induction topics arbitrary: g) (simp_all add: all_relationships_def)

lemma adj_fold_add_topic [simp]: "adj (fold add_topic ts g) = adj g"
  by (induction ts arbitrary: g) simp_all

lemma nodes_fold_add_topic:
  "set (nodes (fold add_topic ts g)) = set (nodes g) \<union> topic_id ` set ts"
  by (induction ts arbitrary: g) (auto simp: nodes_add_topic)

lemma nodes_fold_add_relationship_mono:
  "set (nodes g) \<subseteq> set (nodes (fold add_relationship rs g))"
proof (induction rs arbitrary: g)
  case Nil
  then show ?case by simp
next
  case (Cons r rs)
  have "set (nodes g) \<subseteq> set (nodes (add_relationship r g))"
    by (auto simp: nodes_add_relationship)
  also have "\<dots> \<subseteq> set (nodes (fold add_relationship rs (add_relationship r g)))"
    by (rule Cons.IH)
  finally show ?case by simp
qed

lemma keys_fold_add_relationship:
  "fst ` set (adj (fold add_relationship rs g)) = fst ` set (adj g) \<union> rel_key ` set rs"
proof (induction rs arbitrary: g)
  case Nil
  then show ?case by simp
next
  case (Cons r rs)
  have "fst ` set (adj (add_relationship r g)) = insert (rel_key r) (fst ` set (adj g))"
    by (simp add: add_relationship_adj dom_update)
  then show ?case
    by (simp add: Cons.IH)
qed

lemma map_of_fold_add_relationship:
  "map_of (adj (fold add_relationship rs g))
     = fold (\<lambda>r m. m(rel_key r \<mapsto> edge_of r)) rs (map_of (adj g))"
  by (induction rs arbitrary: g) (simp_all add: add_relationship_adj update_conv')

lemma build_from_topics_fold:
  "build_from_topics topics g
     = fold add_relationship (all_relationships topics) (fold add_topic topics g)"
  by (simp add: build_from_topics_def fold_topic_relationships)

lemma keys_build_from_topics:
  "fst ` set (adj (build_from_topics topics g))
     = fst ` set (adj g) \<union> rel_key ` set (all_relationships topics)"
  by (simp add: build_from_topics_fold keys_fold_add_relationship)

lemma topic_ids_are_nodes:
  "t \<in> set topics \<Longrightarrow> topic_id t \<in> set (nodes (build_from_topics topics g))"
  using nodes_fold_add_relationship_mono [of "fold add_topic topics g" "all_relationships topics"]
  by (auto simp: build_from_topics_fold nodes_fold_add_topic)

lemma rel_key_topic_relationships:
  "r \<in> set (topic_relationships t) \<Longrightarrow>
     (\<exists>p. parent t = Some p \<and> p \<noteq> [] \<and> rel_key r = (p, topic_id t))
     \<or> (\<exists>ref \<in> set (all_refs t). rel_key r = (topic_id t, ref))"
  by (auto simp: topic_relationships_def parent_relationships_def all_refs_def rel_key_def
        Relationship_def split: option.splits if_splits)

lemma fold_upd_keep:
  "(\<And>r. r \<in> set rs \<Longrightarrow> key r = k \<Longrightarrow> val r = a) \<Longrightarrow> m k = Some a \<Longrightarrow>
     fold (\<lambda>r m. m(key r \<mapsto> val r)) rs m k = Some a"
  by (induction rs arbitrary: m) auto

lemma fold_upd_written:
  "\<exists>r \<in> set rs. key r = k \<Longrightarrow> (\<And>r. r \<in> set rs \<Longrightarrow> key r = k \<Longrightarrow> val r = a) \<Longrightarrow>
     fold (\<lambda>r m. m(key r \<mapsto> val r)) rs m k = Some a"
proof (induction rs arbitrary: m)
  case Nil
  then show ?case by simp
next
  case (Cons r rs)
  have rest: "\<And>r'. r' \<in> set rs \<Longrightarrow> key r' = k \<Longrightarrow> val r' = a"
    using Cons.prems(2) by simp
  have "fold (\<lambda>r m. m(key r \<mapsto> val r)) rs (m(key r \<mapsto> val r)) k = Some a"
  proof (cases "\<exists>r \<in> set rs. key r = k")
    case True
    then show ?thesis
      using rest by (rule Cons.IH)
  next
    case False
    with Cons.prems(1) have "key r = k" by auto
    then have "(m(key r \<mapsto> val r)) k = Some a"
      using Cons.prems(2) by simp
    with rest show ?thesis
      by (rule fold_upd_keep)
  qed
  then show ?case by (simp only: fold.simps o_apply)
qed

lemma fold_upd_origin:
  "fold (\<lambda>r m. m(key r \<mapsto> val r)) rs m k = Some a \<Longrightarrow>
     m k = Some a \<or> (\<exists>r \<in> set rs. key r = k \<and> val r = a)"
  by (induction rs arbitrary: m) (fastforce split: if_splits)+

subsection \<open>The orphan detector\<close>

lemma in_degree_zero_iff: "in_degree g n = 0 \<longleftrightarrow> n \<notin> snd ` fst ` set (adj g)"
  by (auto simp: in_degree_def filter_empty_conv image_iff)

lemma out_degree_zero_iff: "out_degree g n = 0 \<longleftrightarrow> n \<notin> fst ` fst ` set (adj g)"
  by (auto simp: out_degree_def filter_empty_conv image_iff)

lemma count_eq_distinct:
  "distinct xs \<Longrightarrow> length (filter (\<lambda>y. y = n) xs) = (if n \<in> set xs then 1 else 0)"
  by (induction xs) auto

lemma orphan_anomaly_fields:
  "an_type (orphan_anomaly n) = orphan_content \<and> an_severity (orphan_anomaly n) = low
   \<and> location (orphan_anomaly n) = n \<and> affected_topics (orphan_anomaly n) = [n]
   \<and> resolution_strategies (orphan_anomaly n) = []"
  by (simp add: orphan_anomaly_def Anomaly_def)

lemma find_orphan_content_count:
  assumes "distinct (nodes g)"
  shows "length (filter (\<lambda>a. location a = n) (find_orphan_content g))
           = (if n \<in> set (nodes g) \<and> in_degree g n = 0 \<and> out_degree g n = 0 then 1 else 0)"
proof -
  let ?os = "get_orphan_nodes g"
  have "filter (\<lambda>a. location a = n) (map orphan_anomaly ?os)
          = map orphan_anomaly (filter (\<lambda>y. y = n) ?os)"
    by (simp add: filter_map comp_def orphan_anomaly_fields)
  moreover have "distinct ?os"
    using assms by (simp add: get_orphan_nodes_def)
  ultimately have "length (filter (\<lambda>a. location a = n) (find_orphan_content g))
          = (if n \<in> set ?os then 1 else 0)"
    by (simp add: find_orphan_content_def count_eq_distinct)
  then show ?thesis
    by (simp add: get_orphan_nodes_def)
qed

lemma isolated_topic_no_relationship:
  assumes "isolated_topic topics t" and "r \<in> set (all_relationships topics)"
  shows "fst (rel_key r) \<noteq> topic_id t \<and> snd (rel_key r) \<noteq> topic_id t"
proof -
  from assms(2) obtain t' where t': "t' \<in> set topics" and r: "r \<in> set (topic_relationships t')"
    by (auto simp: all_relationships_def)
  from assms(1) t' have iso:
    "topic_id t' = topic_id t \<longrightarrow> (parent t' = None \<or> parent t' = Some []) \<and> all_refs t' = []"
    "parent t' \<noteq> Some (topic_id t)" "topic_id t \<notin> set (all_refs t')"
    by (auto simp: isolated_topic_def list_all_iff)
  from rel_key_topic_relationships [OF r] show ?thesis
    using iso by auto
qed

lemma isolated_topic_degrees:
  assumes "isolated_topic topics t"
  shows "in_degree (build_from_topics topics empty_graph) (topic_id t) = 0"
    and "out_degree (build_from_topics topics empty_graph) (topic_id t) = 0"
proof -
  have keys: "fst ` set (adj (build_from_topics topics empty_graph))
                = rel_key ` set (all_relationships topics)"
    by (simp add: keys_build_from_topics empty_graph_def)
  have no: "\<And>k. k \<in> rel_key ` set (all_relationships topics) \<Longrightarrow>
                fst k \<noteq> topic_id t \<and> snd k \<noteq> topic_id t"
    using isolated_topic_no_relationship [OF assms] by blast
  show "in_degree (build_from_topics topics empty_graph) (topic_id t) = 0"
    unfolding in_degree_zero_iff keys
  proof
    assume "topic_id t \<in> snd ` rel_key ` set (all_relationships topics)"
    then obtain k where "k \<in> rel_key ` set (all_relationships topics)" "snd k = topic_id t"
      by (metis imageE)
    with no show False by blast
  qed
  show "out_degree (build_from_topics topics empty_graph) (topic_id t) = 0"
    unfolding out_degree_zero_iff keys
  proof
    assume "topic_id t \<in> fst ` rel_key ` set (all_relationships topics)"
    then obtain k where "k \<in> rel_key ` set (all_relationships topics)" "fst k = topic_id t"
      by (metis imageE)
    with no show False by blast
  qed
qed

text \<open>
  Claim C9, as stated, ends: a topic with no parent, no children and empty reference
  lists is reported exactly once as \<^verbatim>\<open>orphan_content\<close>. That fails where another topic
  refers to it: of the topics \<^verbatim>\<open>A\<close> and \<^verbatim>\<open>B\<close>, with \<^verbatim>\<open>A\<close> among the cross-references of
  \<^verbatim>\<open>B\<close>, the topic \<^verbatim>\<open>A\<close> has no parent, no children and no references, has in-degree 1, and
  no orphan is reported.
\<close>

theorem find_orphan_content_referenced_counterexample:
  "parent (referenced_example ! 0) = None
   \<and> children (referenced_example ! 0) = []
   \<and> all_refs (referenced_example ! 0) = []
   \<and> find_orphan_content (build_from_topics referenced_example empty_graph) = []"
  by code_simp

text \<open>
  Claim C9, amended: on every well-formed graph the orphan detector emits exactly one
  \<^verbatim>\<open>orphan_content\<close> anomaly of severity low for each node whose in-degree and out-degree
  are both 0, and none for any other node or id. In particular, in the graph built from
  a topic list, a topic is reported exactly once if it takes part in no relationship:
  every topic with its id has no parent and empty reference lists, and no topic of the
  list names its id as parent or in a reference list.
\<close>

theorem find_orphan_content_isolated_nodes:
  "(graph_inv g \<longrightarrow>
      find_orphan_content g
        = map orphan_anomaly (filter (\<lambda>n. in_degree g n = 0 \<and> out_degree g n = 0) (nodes g))
      \<and> (\<forall>n. length (filter (\<lambda>a. location a = n) (find_orphan_content g))
             = (if n \<in> set (nodes g) \<and> in_degree g n = 0 \<and> out_degree g n = 0 then 1 else 0)))
   \<and> (\<forall>n. an_type (orphan_anomaly n) = orphan_content \<and> an_severity (orphan_anomaly n) = low
          \<and> location (orphan_anomaly n) = n \<and> affected_topics (orphan_anomaly n) = [n])
   \<and> (t \<in> set topics \<and> isolated_topic topics t \<longrightarrow>
        length (filter (\<lambda>a. location a = topic_id t)
                 (find_orphan_content (build_from_topics topics empty_graph))) = 1)"
proof (intro conjI impI allI)
  show "find_orphan_content g
        = map orphan_anomaly (filter (\<lambda>n. in_degree g n = 0 \<and> out_degree g n = 0) (nodes g))"
    by (simp add: find_orphan_content_def get_orphan_nodes_def)
next
  fix n
  assume "graph_inv g"
  then have "distinct (nodes g)"
    by (simp add: graph_inv_def)
  then show "length (filter (\<lambda>a. location a = n) (find_orphan_content g))
             = (if n \<in> set (nodes g) \<and> in_degree g n = 0 \<and> out_degree g n = 0 then 1 else 0)"
    by (rule find_orphan_content_count)
next
  assume a: "t \<in> set topics \<and> isolated_topic topics t"
  let ?g = "build_from_topics topics empty_graph"
  have "graph_inv ?g"
    by (simp add: graph_inv_build_from_topics graph_inv_empty)
  then have "distinct (nodes ?g)"
    by (simp add: graph_inv_def)
  from find_orphan_content_count [OF this, of "topic_id t"]
  show "length (filter (\<lambda>a. location a = topic_id t) (find_orphan_content ?g)) = 1"
    using a by (simp add: isolated_topic_degrees topic_ids_are_nodes)
qed (simp_all add: orphan_anomaly_fields)

theorem find_orphan_content_isolated_nodes_witness:
  "graph_inv (build_from_topics orphan_example empty_graph)
   \<and> Topic ''A'' \<in> set orphan_example
   \<and> isolated_topic orphan_example (Topic ''A'')
   \<and> nodes (build_from_topics orphan_example empty_graph) = [''A'', ''B'', ''C'']
   \<and> find_orphan_content (build_from_topics orphan_example empty_graph) = [orphan_anomaly ''A'']
   \<and> length (filter (\<lambda>a. location a = topic_id (Topic ''A''))
               (find_orphan_content (build_from_topics orphan_example empty_graph))) = 1"
proof -
  note inst = find_orphan_content_isolated_nodes
                [of "build_from_topics orphan_example empty_graph" "Topic ''A''" orphan_example]
  have inv: "graph_inv (build_from_topics orphan_example empty_graph)"
    by (simp add: graph_inv_build_from_topics graph_inv_empty)
  have mem: "Topic ''A'' \<in> set orphan_example"
    by (simp add: orphan_example_def)
  have iso: "isolated_topic orphan_example (Topic ''A'')"
    by code_simp
  have ns: "nodes (build_from_topics orphan_example empty_graph) = [''A'', ''B'', ''C'']"
    by code_simp
  have os: "filter (\<lambda>n. in_degree (build_from_topics orphan_example empty_graph) n = 0
                      \<and> out_degree (build_from_topics orphan_example empty_graph) n = 0)
              [''A'', ''B'', ''C''] = [''A'']"
    by code_simp
  from inst inv have "find_orphan_content (build_from_topics orphan_example empty_graph)
        = map orphan_anomaly
            (filter (\<lambda>n. in_degree (build_from_topics orphan_example empty_graph) n = 0
                        \<and> out_degree (build_from_topics orphan_example empty_graph) n = 0)
               (nodes (build_from_topics orphan_example empty_graph)))"
    by blast
  then have 1: "find_orphan_content (build_from_topics orphan_example empty_graph) = [orphan_anomaly ''A'']"
    by (simp only: ns os list.map)
  have 2: "length (filter (\<lambda>a. location a = topic_id (Topic ''A''))
               (find_orphan_content (build_from_topics orphan_example empty_graph))) = 1"
    using inst mem iso by blast
  show ?thesis
    using inv mem iso ns 1 2 by blast
qed

subsection \<open>Hierarchical edges\<close>

lemma topic_relationships_cases:
  "r \<in> set (topic_relationships t) \<Longrightarrow>
     (edge_of r = hierarchical_edge
        \<and> (\<exists>p. parent t = Some p \<and> p \<noteq> [] \<and> rel_key r = (p, topic_id t)))
     \<or> (rel_type r \<noteq> hierarchical \<and> (\<exists>ref \<in> set (all_refs t). rel_key r = (topic_id t, ref)))"
  by (auto simp: topic_relationships_def parent_relationships_def all_refs_def rel_key_def
        Relationship_def edge_of_def hierarchical_edge_def split: option.splits if_splits)

lemma parent_relationship_added:
  assumes "t \<in> set topics" and "parent t = Some p" and "p \<noteq> []"
  shows "\<exists>r \<in> set (all_relationships topics). rel_key r = (p, topic_id t)"
proof -
  have "Relationship p (topic_id t) hierarchical \<in> set (topic_relationships t)"
    using assms(2,3) by (simp add: topic_relationships_def parent_relationships_def)
  then have "Relationship p (topic_id t) hierarchical \<in> set (all_relationships topics)"
    using assms(1) by (auto simp: all_relationships_def)
  moreover have "rel_key (Relationship p (topic_id t) hierarchical) = (p, topic_id t)"
    by (simp add: rel_key_def Relationship_def)
  ultimately show ?thesis by blast
qed

lemma get_edge_data_build:
  "get_edge_data (build_from_topics topics g) u v
     = fold (\<lambda>r m. m(rel_key r \<mapsto> edge_of r)) (all_relationships topics) (map_of (adj g)) (u, v)"
  by (simp add: get_edge_data_def build_from_topics_fold map_of_fold_add_relationship)

lemma parent_edge_exists:
  assumes "t \<in> set topics" and "parent t = Some p" and "p \<noteq> []"
  shows "has_edge (build_from_topics topics g) p (topic_id t)"
proof -
  from parent_relationship_added [OF assms]
  have "(p, topic_id t) \<in> rel_key ` set (all_relationships topics)"
    by (metis imageI)
  then show ?thesis
    by (simp add: has_edge_def keys_build_from_topics)
qed

lemma parent_edge_last_written:
  assumes "t \<in> set topics" and "parent t = Some p" and "p \<noteq> []"
    and noref: "\<forall>t' \<in> set topics. topic_id t' = p \<longrightarrow> topic_id t \<notin> set (all_refs t')"
  shows "fold (\<lambda>r m. m(rel_key r \<mapsto> edge_of r)) (all_relationships topics) m (p, topic_id t)
           = Some hierarchical_edge"
proof (rule fold_upd_written)
  show "\<exists>r \<in> set (all_relationships topics). rel_key r = (p, topic_id t)"
    using assms(1-3) by (rule parent_relationship_added)
next
  fix r
  assume r: "r \<in> set (all_relationships topics)" and k: "rel_key r = (p, topic_id t)"
  from r obtain t' where t': "t' \<in> set topics" and rt: "r \<in> set (topic_relationships t')"
    by (auto simp: all_relationships_def)
  from topic_relationships_cases [OF rt] show "edge_of r = hierarchical_edge"
  proof
    assume "edge_of r = hierarchical_edge
        \<and> (\<exists>p. parent t' = Some p \<and> p \<noteq> [] \<and> rel_key r = (p, topic_id t'))"
    then show ?thesis by simp
  next
    assume "rel_type r \<noteq> hierarchical
        \<and> (\<exists>ref \<in> set (all_refs t'). rel_key r = (topic_id t', ref))"
    with k have "topic_id t' = p" "topic_id t \<in> set (all_refs t')"
      by auto
    with noref t' show ?thesis by blast
  qed
qed

lemma parent_edge_hierarchical:
  assumes "t \<in> set topics" and "parent t = Some p" and "p \<noteq> []"
    and noref: "\<forall>t' \<in> set topics. topic_id t' = p \<longrightarrow> topic_id t \<notin> set (all_refs t')"
  shows "get_edge_data (build_from_topics topics g) p (topic_id t) = Some hierarchical_edge"
  unfolding get_edge_data_build using assms by (rule parent_edge_last_written)

lemma all_relationships_append:
  "all_relationships (pre @ post) = all_relationships pre @ all_relationships post"
  by (simp add: all_relationships_def)

lemma parent_edge_hierarchical_from:
  assumes "parent t = Some p" and "p \<noteq> []"
    and noref: "\<forall>t' \<in> set (t # post). topic_id t' = p \<longrightarrow> topic_id t \<notin> set (all_refs t')"
  shows "get_edge_data (build_from_topics (pre @ t # post) g) p (topic_id t) = Some hierarchical_edge"
proof -
  let ?upd = "\<lambda>r m. m(rel_key r \<mapsto> edge_of r)"
  have "get_edge_data (build_from_topics (pre @ t # post) g) p (topic_id t)
      = fold ?upd (all_relationships (t # post))
          (fold ?upd (all_relationships pre) (map_of (adj g))) (p, topic_id t)"
    by (simp only: get_edge_data_build all_relationships_append fold_append o_apply)
  also have "\<dots> = Some hierarchical_edge"
    using _ assms(1,2) noref by (rule parent_edge_last_written) simp
  finally show ?thesis .
qed

lemma hierarchical_edge_from_parent:
  assumes "get_edge_data (build_from_topics topics empty_graph) u v = Some a"
    and "e_type a = hierarchical"
  shows "\<exists>t \<in> set topics. parent t = Some u \<and> topic_id t = v"
proof -
  from assms(1) have "fold (\<lambda>r m. m(rel_key r \<mapsto> edge_of r)) (all_relationships topics)
                        Map.empty (u, v) = Some a"
    by (simp add: get_edge_data_build empty_graph_def)
  from fold_upd_origin [OF this]
  obtain r where r: "r \<in> set (all_relationships topics)" and k: "rel_key r = (u, v)"
    and a: "edge_of r = a"
    by auto
  from r obtain t where t: "t \<in> set topics" and rt: "r \<in> set (topic_relationships t)"
    by (auto simp: all_relationships_def)
  from a assms(2) have "rel_type r = hierarchical"
    by (auto simp: edge_of_def)
  with topic_relationships_cases [OF rt] k have "parent t = Some u \<and> topic_id t = v"
    by auto
  with t show ?thesis by blast
qed

lemma build_ignores_children:
  "build_from_topics (map (\<lambda>t. t\<lparr>children := f t\<rparr>) topics) g = build_from_topics topics g"
proof -
  have rel: "\<And>t. topic_relationships (t\<lparr>children := f t\<rparr>) = topic_relationships t"
    by (simp add: topic_relationships_def parent_relationships_def split: option.splits)
  have top: "\<And>t. add_topic (t\<lparr>children := f t\<rparr>) = add_topic t"
    by (simp add: add_topic_def fun_eq_iff)
  show ?thesis
    by (simp add: build_from_topics_def fold_map comp_def rel top)
qed

text \<open>
  Claim C8, as stated: every topic whose parent field is set has, after construction, an
  edge from the parent to the topic with type hierarchical. Two inputs show otherwise.
  The graph keeps one edge per ordered pair, written by the last relationship added for
  the pair: with the child \<^verbatim>\<open>1.1\<close> before its parent \<^verbatim>\<open>1\<close>, and \<^verbatim>\<open>1.1\<close> among the
  cross-references of \<^verbatim>\<open>1\<close>, the edge from \<^verbatim>\<open>1\<close> to \<^verbatim>\<open>1.1\<close> ends as a cross-reference.
  And \<^verbatim>\<open>if topic.parent:\<close> skips a parent that is the empty string.
\<close>

theorem build_from_topics_hierarchical_counterexample:
  "topic_id (overwrite_example ! 0) = ''1.1''
   \<and> parent (overwrite_example ! 0) = Some ''1''
   \<and> get_edge_data (build_from_topics overwrite_example empty_graph) ''1'' ''1.1''
       = Some \<lparr>e_type = cross_reference, e_status = valid, e_context = None, e_severity = None\<rparr>
   \<and> parent (empty_parent_example ! 0) = Some []
   \<and> adj (build_from_topics empty_parent_example empty_graph) = []"
  by code_simp

text \<open>
  Claim C8, amended: after construction from a topic list, every topic whose parent field
  is a non-empty string has an edge from the parent id to its own id; that edge has type
  hierarchical (status valid, no context, no severity) whenever neither the topic itself
  nor a topic later in the list has the parent's id and lists the topic's id among its
  references (so always when parents that reference a child stand before it, as in
  document order). Every hierarchical edge of a graph built from the empty graph comes
  from a parent field, and the children lists are never read: replacing them changes
  nothing in the graph.
\<close>

theorem build_from_topics_hierarchical_edges:
  "(t \<in> set topics \<and> parent t = Some p \<and> p \<noteq> []
      \<longrightarrow> has_edge (build_from_topics topics g) p (topic_id t))
   \<and> (topics = pre @ t # post \<and> parent t = Some p \<and> p \<noteq> []
        \<and> (\<forall>t' \<in> set (t # post). topic_id t' = p \<longrightarrow> topic_id t \<notin> set (all_refs t'))
      \<longrightarrow> get_edge_data (build_from_topics topics g) p (topic_id t) = Some hierarchical_edge)
   \<and> (t \<in> set topics \<and> parent t = Some p \<and> p \<noteq> []
        \<and> (\<forall>t' \<in> set topics. topic_id t' = p \<longrightarrow> topic_id t \<notin> set (all_refs t'))
      \<longrightarrow> get_edge_data (build_from_topics topics g) p (topic_id t) = Some hierarchical_edge)
   \<and> (get_edge_data (build_from_topics topics empty_graph) u v = Some a \<and> e_type a = hierarchical
      \<longrightarrow> (\<exists>t' \<in> set topics. parent t' = Some u \<and> topic_id t' = v))
   \<and> build_from_topics (map (\<lambda>t. t\<lparr>children := f t\<rparr>) topics) g = build_from_topics topics g"
  using parent_edge_exists [of t topics p g] parent_edge_hierarchical [of t topics p g]
    parent_edge_hierarchical_from [of t p post pre g]
    hierarchical_edge_from_parent [of topics u v a] build_ignores_children [of f topics g]
  by blast

theorem build_from_topics_hierarchical_edges_witness:
  "document_order_example = [document_order_example ! 0] @ document_order_example ! 1 # []
   \<and> parent (document_order_example ! 1) = Some ''1''
   \<and> topic_id (document_order_example ! 1) = ''1.1''
   \<and> topic_id (document_order_example ! 0) = ''1''
   \<and> all_refs (document_order_example ! 0) = [''1.1'', ''1.1'']
   \<and> all_refs (document_order_example ! 1) = []
   \<and> has_edge (build_from_topics document_order_example empty_graph) ''1'' ''1.1''
   \<and> get_edge_data (build_from_topics document_order_example empty_graph) ''1'' ''1.1''
       = Some hierarchical_edge
   \<and> get_edge_data (build_from_topics hierarchy_example empty_graph) ''1'' ''1.1''
       = Some hierarchical_edge"
proof -
  let ?t = "document_order_example ! 1"
  note inst = build_from_topics_hierarchical_edges
                [of ?t document_order_example "''1''" empty_graph
                    "[document_order_example ! 0]" "[]"]
  note insth = build_from_topics_hierarchical_edges
                [of "hierarchy_example ! 1" hierarchy_example "''1''" empty_graph]
  have shape: "document_order_example = [document_order_example ! 0] @ ?t # []"
    by (simp add: document_order_example_def)
  have mem: "?t \<in> set document_order_example"
    by (simp add: document_order_example_def)
  have par: "parent ?t = Some ''1''"
    and tid: "topic_id ?t = ''1.1''"
    and tid0: "topic_id (document_order_example ! 0) = ''1''"
    and refs0: "all_refs (document_order_example ! 0) = [''1.1'', ''1.1'']"
    and refs: "all_refs ?t = []"
    by (simp_all add: document_order_example_def Topic_def all_refs_def)
  have noref: "\<forall>t' \<in> set (?t # []). topic_id t' = ''1'' \<longrightarrow> topic_id ?t \<notin> set (all_refs t')"
    by (simp add: document_order_example_def Topic_def all_refs_def)
  have ne: "''1'' \<noteq> []" by simp
  have 1: "has_edge (build_from_topics document_order_example empty_graph) ''1'' (topic_id ?t)"
    using inst mem par ne by blast
  have 2: "get_edge_data (build_from_topics document_order_example empty_graph) ''1'' (topic_id ?t)
             = Some hierarchical_edge"
    using inst shape par ne noref by blast
  have memh: "hierarchy_example ! 1 \<in> set hierarchy_example"
    by (simp add: hierarchy_example_def)
  have parh: "parent (hierarchy_example ! 1) = Some ''1''"
    and tidh: "topic_id (hierarchy_example ! 1) = ''1.1''"
    by (simp_all add: hierarchy_example_def Topic_def)
  have norefh: "\<forall>t' \<in> set hierarchy_example.
                 topic_id t' = ''1'' \<longrightarrow> topic_id (hierarchy_example ! 1) \<notin> set (all_refs t')"
    by (simp add: hierarchy_example_def Topic_def all_refs_def)
  have 3: "get_edge_data (build_from_topics hierarchy_example empty_graph) ''1''
             (topic_id (hierarchy_example ! 1)) = Some hierarchical_edge"
    using insth memh parh ne norefh by blast
  note 1 = 1 [unfolded tid] and 2 = 2 [unfolded tid] and 3 = 3 [unfolded tidh]
  show ?thesis
    using shape par tid tid0 refs0 refs 1 2 3 by blast
qed

subsection \<open>The enumeration of simple cycles\<close>

lemma extend_cycles_prefix:
  "c \<in> set (extend_cycles g s avail path) \<Longrightarrow> \<exists>q. c = path @ q"
proof (induction g s avail path rule: extend_cycles.induct)
  case (1 g s avail path)
  from "1.prems" consider "c = path"
    | w where "w \<in> set avail" "has_edge g (last path) w"
        "c \<in> set (extend_cycles g s (remove1 w avail) (path @ [w]))"
    by (subst (asm) extend_cycles.simps) (auto split: if_splits)
  then show ?case
  proof cases
    case 1
    then show ?thesis by simp
  next
    case 2
    then have "w \<in> set (filter (has_edge g (last path)) avail)" by simp
    from "1.IH" [OF this 2(3)] show ?thesis by auto
  qed
qed

lemma extend_cycles_sound:
  assumes "c \<in> set (extend_cycles g s avail path)" and "distinct avail" and "path \<noteq> []"
  shows "\<exists>q. c = path @ q \<and> distinct q \<and> set q \<subseteq> set avail
           \<and> successively (has_edge g) (last path # q) \<and> has_edge g (last c) s"
  using assms
proof (induction g s avail path rule: extend_cycles.induct)
  case (1 g s avail path)
  from "1.prems"(1) consider "c = path" "has_edge g (last path) s"
    | w where "w \<in> set avail" "has_edge g (last path) w"
        "c \<in> set (extend_cycles g s (remove1 w avail) (path @ [w]))"
    by (subst (asm) extend_cycles.simps) (auto split: if_splits)
  then show ?case
  proof cases
    case 1
    then show ?thesis by simp
  next
    case 2
    then have w: "w \<in> set (filter (has_edge g (last path)) avail)" by simp
    have "distinct (remove1 w avail)" using "1.prems"(2) by simp
    from "1.IH" [OF w 2(3) this]
    obtain q where q: "c = (path @ [w]) @ q" "distinct q" "set q \<subseteq> set (remove1 w avail)"
      "successively (has_edge g) (last (path @ [w]) # q)" "has_edge g (last c) s"
      by auto
    from q(3) "1.prems"(2) have "w \<notin> set q" "set q \<subseteq> set avail"
      by auto
    with q 2(1,2) have "c = path @ (w # q) \<and> distinct (w # q) \<and> set (w # q) \<subseteq> set avail
        \<and> successively (has_edge g) (last path # w # q) \<and> has_edge g (last c) s"
      by simp
    then show ?thesis by blast
  qed
qed

lemma extend_cycles_complete:
  "distinct q \<Longrightarrow> set q \<subseteq> set avail \<Longrightarrow> successively (has_edge g) (last path # q) \<Longrightarrow>
   has_edge g (last (path @ q)) s \<Longrightarrow> path \<noteq> [] \<Longrightarrow>
     path @ q \<in> set (extend_cycles g s avail path)"
proof (induction q arbitrary: avail path)
  case Nil
  then show ?case
    by (subst extend_cycles.simps) simp
next
  case (Cons w q)
  have w: "w \<in> set avail" "has_edge g (last path) w"
    using Cons.prems by auto
  have "(path @ [w]) @ q \<in> set (extend_cycles g s (remove1 w avail) (path @ [w]))"
  proof (rule Cons.IH)
    show "distinct q" using Cons.prems(1) by simp
    show "set q \<subseteq> set (remove1 w avail)"
    proof
      fix x assume "x \<in> set q"
      with Cons.prems(1,2) have "x \<noteq> w" "x \<in> set avail" by auto
      then show "x \<in> set (remove1 w avail)" by (simp add: in_set_remove1)
    qed
    show "successively (has_edge g) (last (path @ [w]) # q)"
      using Cons.prems(3) by simp
    show "has_edge g (last ((path @ [w]) @ q)) s"
      using Cons.prems(4) by simp
    show "path @ [w] \<noteq> []" by simp
  qed
  with w show ?case
    by (subst extend_cycles.simps) auto
qed

lemma distinct_concat_map:
  "distinct xs \<Longrightarrow> (\<And>x. x \<in> set xs \<Longrightarrow> distinct (f x)) \<Longrightarrow>
   (\<And>x y. x \<in> set xs \<Longrightarrow> y \<in> set xs \<Longrightarrow> x \<noteq> y \<Longrightarrow> set (f x) \<inter> set (f y) = {}) \<Longrightarrow>
     distinct (concat (map f xs))"
proof (induction xs)
  case Nil
  then show ?case by simp
next
  case (Cons x xs)
  have "distinct (concat (map f xs))"
    using Cons.prems by (intro Cons.IH) auto
  moreover have "distinct (f x)"
    using Cons.prems(2) by simp
  moreover have "set (f x) \<inter> set (concat (map f xs)) = {}"
  proof -
    have "\<And>y. y \<in> set xs \<Longrightarrow> set (f x) \<inter> set (f y) = {}"
      using Cons.prems(1,3) by auto
    then show ?thesis by auto
  qed
  ultimately show ?case by simp
qed

lemma extend_cycles_distinct:
  "distinct avail \<Longrightarrow> distinct (extend_cycles g s avail path)"
proof (induction g s avail path rule: extend_cycles.induct)
  case (1 g s avail path)
  let ?ws = "filter (has_edge g (last path)) avail"
  let ?f = "\<lambda>w. extend_cycles g s (remove1 w avail) (path @ [w])"
  have d: "distinct (concat (map ?f ?ws))"
  proof (rule distinct_concat_map)
    show "distinct ?ws" using "1.prems" by simp
  next
    fix w assume "w \<in> set ?ws"
    then show "distinct (?f w)"
      using "1.prems" by (intro "1.IH") simp_all
  next
    fix w w' assume "w \<in> set ?ws" "w' \<in> set ?ws" "w \<noteq> w'"
    show "set (?f w) \<inter> set (?f w') = {}"
    proof (rule ccontr)
      assume "set (?f w) \<inter> set (?f w') \<noteq> {}"
      then obtain c where "c \<in> set (?f w)" "c \<in> set (?f w')" by auto
      then obtain q q' where "c = (path @ [w]) @ q" "c = (path @ [w']) @ q'"
        using extend_cycles_prefix by blast
      with \<open>w \<noteq> w'\<close> show False by simp
    qed
  qed
  have "path \<notin> set (concat (map ?f ?ws))"
  proof
    assume "path \<in> set (concat (map ?f ?ws))"
    then obtain w where "path \<in> set (?f w)" by auto
    then obtain q where "path = (path @ [w]) @ q"
      using extend_cycles_prefix by blast
    then show False by simp
  qed
  with d show ?case
    by (subst extend_cycles.simps) simp
qed

lemma successively_snoc:
  "successively P (xs @ [z]) \<longleftrightarrow> successively P xs \<and> (xs \<noteq> [] \<longrightarrow> P (last xs) z)"
  by (auto simp: successively_append_iff)

lemma successively_Cons_snoc:
  "successively P (x # xs @ [z]) \<longleftrightarrow> successively P (x # xs) \<and> P (last (x # xs)) z"
  using successively_snoc [of P "x # xs" z] by simp

lemma is_simple_cycle_cons:
  "is_simple_cycle g (v # q) \<longleftrightarrow>
     v \<notin> set q \<and> distinct q \<and> successively (has_edge g) (v # q) \<and> has_edge g (last (v # q)) v"
  by (auto simp: is_simple_cycle_def successively_Cons_snoc)

lemma extend_cycles_start:
  assumes "c \<in> set (extend_cycles g v rest [v])" and "distinct (v # rest)"
  shows "is_simple_cycle g c \<and> hd c = v \<and> set c \<subseteq> set (v # rest)"
proof -
  from extend_cycles_sound [OF assms(1)] assms(2)
  obtain q where q: "c = [v] @ q" "distinct q" "set q \<subseteq> set rest"
    "successively (has_edge g) (last [v] # q)" "has_edge g (last c) v"
    by auto
  then have "c = v # q" "v \<notin> set q"
    using assms(2) by auto
  with q show ?thesis
    by (auto simp: is_simple_cycle_cons)
qed

lemma simple_cycles_from_sound:
  "c \<in> set (simple_cycles_from g ns) \<Longrightarrow> distinct ns \<Longrightarrow>
     is_simple_cycle g c \<and> set c \<subseteq> set ns"
proof (induction ns)
  case Nil
  then show ?case by simp
next
  case (Cons v rest)
  from Cons.prems(1) consider "c \<in> set (extend_cycles g v rest [v])"
    | "c \<in> set (simple_cycles_from g rest)"
    by auto
  then show ?case
  proof cases
    case 1
    from extend_cycles_start [OF this Cons.prems(2)] show ?thesis by simp
  next
    case 2
    with Cons.IH Cons.prems(2) show ?thesis by auto
  qed
qed

lemma simple_cycles_from_distinct:
  "distinct ns \<Longrightarrow> distinct (simple_cycles_from g ns)"
proof (induction ns)
  case Nil
  then show ?case by simp
next
  case (Cons v rest)
  have "set (extend_cycles g v rest [v]) \<inter> set (simple_cycles_from g rest) = {}"
  proof (rule ccontr)
    assume "set (extend_cycles g v rest [v]) \<inter> set (simple_cycles_from g rest) \<noteq> {}"
    then obtain c where 1: "c \<in> set (extend_cycles g v rest [v])"
      and 2: "c \<in> set (simple_cycles_from g rest)"
      by auto
    from extend_cycles_start [OF 1 Cons.prems] have "hd c = v" "c \<noteq> []"
      by (auto simp: is_simple_cycle_def)
    then have "v \<in> set c" by (metis hd_in_set)
    moreover from simple_cycles_from_sound [OF 2] Cons.prems have "set c \<subseteq> set rest"
      by simp
    ultimately show False using Cons.prems by auto
  qed
  moreover have "distinct (extend_cycles g v rest [v])"
    using Cons.prems by (simp add: extend_cycles_distinct)
  ultimately show ?case
    using Cons by simp
qed

lemma simple_cycles_from_same_hd:
  "c1 \<in> set (simple_cycles_from g ns) \<Longrightarrow> c2 \<in> set (simple_cycles_from g ns) \<Longrightarrow>
   set c1 = set c2 \<Longrightarrow> distinct ns \<Longrightarrow> hd c1 = hd c2"
proof (induction ns)
  case Nil
  then show ?case by simp
next
  case (Cons v rest)
  have mixed: False
    if a: "a \<in> set (extend_cycles g v rest [v])" and b: "b \<in> set (simple_cycles_from g rest)"
      and ab: "set a = set b" for a b
  proof -
    from extend_cycles_start [OF a Cons.prems(4)] have "hd a = v" "a \<noteq> []"
      by (auto simp: is_simple_cycle_def)
    then have "v \<in> set a" by (metis hd_in_set)
    moreover from simple_cycles_from_sound [OF b] Cons.prems(4) have "set b \<subseteq> set rest"
      by simp
    ultimately show False using Cons.prems(4) ab by auto
  qed
  from Cons.prems(1) consider (e1) "c1 \<in> set (extend_cycles g v rest [v])"
    | (r1) "c1 \<in> set (simple_cycles_from g rest)"
    by auto
  then show ?case
  proof cases
    case e1
    from Cons.prems(2) consider (e2) "c2 \<in> set (extend_cycles g v rest [v])"
      | (r2) "c2 \<in> set (simple_cycles_from g rest)"
      by auto
    then show ?thesis
    proof cases
      case e2
      from extend_cycles_start [OF e1 Cons.prems(4)] extend_cycles_start [OF e2 Cons.prems(4)]
      show ?thesis by simp
    next
      case r2
      from mixed [OF e1 r2 Cons.prems(3)] show ?thesis ..
    qed
  next
    case r1
    from Cons.prems(2) consider (e2) "c2 \<in> set (extend_cycles g v rest [v])"
      | (r2) "c2 \<in> set (simple_cycles_from g rest)"
      by auto
    then show ?thesis
    proof cases
      case e2
      from mixed [OF e2 r1] Cons.prems(3) show ?thesis by simp
    next
      case r2
      from Cons.IH [OF r1 r2 Cons.prems(3)] Cons.prems(4) show ?thesis by simp
    qed
  qed
qed

lemma is_simple_cycle_rotate1:
  assumes "is_simple_cycle g c"
  shows "is_simple_cycle g (rotate1 c)"
proof (cases c)
  case Nil
  with assms show ?thesis by (simp add: is_simple_cycle_def)
next
  case (Cons x xs)
  with assms have c: "x \<notin> set xs" "distinct xs" "successively (has_edge g) (x # xs)"
    "has_edge g (last (x # xs)) x"
    by (simp_all add: is_simple_cycle_cons)
  show ?thesis
  proof (cases xs)
    case Nil
    with Cons assms show ?thesis by (simp add: is_simple_cycle_def)
  next
    case (Cons y ys)
    have "successively (has_edge g) (y # ys @ [x])"
      using c(3,4) Cons by (simp add: successively_Cons_snoc)
    moreover have "has_edge g (last (y # ys @ [x])) y"
      using c(3) Cons by simp
    moreover have "y \<notin> set (ys @ [x])" "distinct (ys @ [x])"
      using c(1,2) Cons by auto
    ultimately have "is_simple_cycle g (y # ys @ [x])"
      by (simp only: is_simple_cycle_cons) simp
    then show ?thesis
      using \<open>c = x # xs\<close> Cons by simp
  qed
qed

lemma is_simple_cycle_rotate:
  "is_simple_cycle g c \<Longrightarrow> is_simple_cycle g (rotate n c)"
  by (induction n) (simp_all add: is_simple_cycle_rotate1)

lemma simple_cycles_from_complete:
  "is_simple_cycle g c \<Longrightarrow> set c \<subseteq> set ns \<Longrightarrow>
     \<exists>n. rotate n c \<in> set (simple_cycles_from g ns)"
proof (induction ns)
  case Nil
  then show ?case by (simp add: is_simple_cycle_def)
next
  case (Cons v rest)
  show ?case
  proof (cases "v \<in> set c")
    case True
    then obtain a b where ab: "c = a @ v # b"
      by (meson split_list)
    let ?q = "b @ a"
    have rot: "rotate (length a) c = v # ?q"
      by (simp add: ab rotate_append)
    from is_simple_cycle_rotate [OF Cons.prems(1), of "length a"]
    have cyc: "is_simple_cycle g (v # ?q)"
      by (simp add: rot)
    then have q: "v \<notin> set ?q" "distinct ?q" "successively (has_edge g) (v # ?q)"
      "has_edge g (last (v # ?q)) v"
      by (simp_all add: is_simple_cycle_cons)
    have "set ?q \<subseteq> set rest"
      using Cons.prems(2) q(1) ab by auto
    with q have "[v] @ ?q \<in> set (extend_cycles g v rest [v])"
      by (intro extend_cycles_complete) simp_all
    then have "rotate (length a) c \<in> set (simple_cycles_from g (v # rest))"
      by (simp add: rot)
    then show ?thesis by blast
  next
    case False
    with Cons.prems(2) have "set c \<subseteq> set rest" by auto
    from Cons.IH [OF Cons.prems(1) this] show ?thesis by auto
  qed
qed

lemma rotations_same_hd:
  assumes "distinct c" and "c \<noteq> []" and "hd (rotate m c) = hd (rotate n c)"
  shows "rotate m c = rotate n c"
proof -
  have len: "0 < length c" using assms(2) by simp
  from assms(2,3) have "c ! (m mod length c) = c ! (n mod length c)"
    by (simp add: hd_rotate_conv_nth)
  with assms(1) len have "m mod length c = n mod length c"
    by (simp add: nth_eq_iff_index_eq)
  then show ?thesis
    by (metis rotate_conv_mod)
qed

lemma successively_has_next:
  "successively P (xs @ [z]) \<Longrightarrow> x \<in> set xs \<Longrightarrow> \<exists>y. P x y"
proof (induction xs)
  case Nil
  then show ?case by simp
next
  case (Cons a xs)
  show ?case
  proof (cases xs)
    case Nil
    with Cons.prems show ?thesis by auto
  next
    case (Cons b ys)
    with Cons.prems Cons.IH show ?thesis by auto
  qed
qed

lemma simple_cycle_nodes:
  assumes "graph_inv g" and "is_simple_cycle g c"
  shows "set c \<subseteq> set (nodes g)"
proof
  fix x assume "x \<in> set c"
  with assms(2) obtain y where "has_edge g x y"
    using successively_has_next [of "has_edge g" c "hd c" x] by (auto simp: is_simple_cycle_def)
  then have "(x, y) \<in> set (map fst (adj g))"
    by (simp add: has_edge_def)
  with assms(1) show "x \<in> set (nodes g)"
    by (auto simp: graph_inv_def list_all_iff)
qed

lemma simple_cycles_from_nonempty:
  "c \<in> set (simple_cycles_from g ns) \<Longrightarrow> c \<noteq> []"
proof (induction ns)
  case Nil
  then show ?case by simp
next
  case (Cons v rest)
  from Cons.prems consider "c \<in> set (extend_cycles g v rest [v])"
    | "c \<in> set (simple_cycles_from g rest)"
    by auto
  then show ?case
  proof cases
    case 1
    then obtain q where "c = [v] @ q"
      using extend_cycles_prefix by blast
    then show ?thesis by simp
  next
    case 2
    then show ?thesis by (rule Cons.IH)
  qed
qed

lemma cycle_anomalies_nonempty:
  "[] \<notin> set cs \<Longrightarrow> cycle_anomalies cs = Inr (map (\<lambda>c. cycle_anomaly c (hd c)) cs)"
proof (induction cs)
  case Nil
  then show ?case by simp
next
  case (Cons c cs)
  then obtain x xs where "c = x # xs"
    by (cases c) auto
  with Cons show ?case by simp
qed

lemma detect_circular_references_anomalies_eq:
  "detect_circular_references_anomalies g
     = Inr (map (\<lambda>c. cycle_anomaly c (hd c)) (detect_circular_references g))"
proof -
  have "[] \<notin> set (simple_cycles g)"
    using simple_cycles_from_nonempty [of "[]" g "nodes g"] by (auto simp: simple_cycles_def)
  then show ?thesis
    by (simp add: detect_circular_references_anomalies_def detect_circular_references_def
          cycle_anomalies_nonempty)
qed

lemma detect_sound:
  "graph_inv g \<Longrightarrow> c \<in> set (detect_circular_references g) \<Longrightarrow> is_simple_cycle g c"
  using simple_cycles_from_sound [of c g "nodes g"]
  by (simp add: detect_circular_references_def simple_cycles_def graph_inv_def)

lemma detect_distinct: "graph_inv g \<Longrightarrow> distinct (detect_circular_references g)"
  by (simp add: detect_circular_references_def simple_cycles_def graph_inv_def
        simple_cycles_from_distinct)

lemma detect_complete:
  assumes "graph_inv g" and "is_simple_cycle g c"
  shows "\<exists>n. rotate n c \<in> set (detect_circular_references g)"
  using simple_cycles_from_complete [OF assms(2) simple_cycle_nodes [OF assms]]
  by (simp add: detect_circular_references_def simple_cycles_def)

lemma detect_unique:
  assumes "graph_inv g" and "is_simple_cycle g c"
    and "rotate m c \<in> set (detect_circular_references g)"
    and "rotate n c \<in> set (detect_circular_references g)"
  shows "rotate m c = rotate n c"
proof -
  have "distinct (nodes g)" using assms(1) by (simp add: graph_inv_def)
  with assms(3,4) have "hd (rotate m c) = hd (rotate n c)"
    by (intro simple_cycles_from_same_hd [of _ g "nodes g"])
       (simp_all add: detect_circular_references_def simple_cycles_def)
  with assms(2) show ?thesis
    by (intro rotations_same_hd) (simp_all add: is_simple_cycle_def)
qed

lemma detect_exactly_one:
  assumes "graph_inv g" and "is_simple_cycle g c"
  shows "\<exists>!c'. c' \<in> set (detect_circular_references g) \<and> (\<exists>n. c' = rotate n c)"
proof -
  from detect_complete [OF assms] obtain n where n: "rotate n c \<in> set (detect_circular_references g)"
    by blast
  show ?thesis
  proof (rule ex1I [of _ "rotate n c"])
    show "rotate n c \<in> set (detect_circular_references g) \<and> (\<exists>k. rotate n c = rotate k c)"
      using n by blast
  next
    fix c' assume "c' \<in> set (detect_circular_references g) \<and> (\<exists>k. c' = rotate k c)"
    then obtain k where "c' = rotate k c" "rotate k c \<in> set (detect_circular_references g)"
      by blast
    with detect_unique [OF assms _ n, of k] show "c' = rotate n c"
      by simp
  qed
qed

lemma distinct_singleton_set:
  assumes "distinct xs" and "set xs = {a}"
  shows "xs = [a]"
proof (cases xs)
  case Nil
  with assms(2) show ?thesis by simp
next
  case (Cons x rest)
  with assms(2) have x: "x = a" and sub: "set rest \<subseteq> {a}"
    by auto
  from Cons assms(1) x have "a \<notin> set rest" by simp
  with sub have "rest = []" by (cases rest) auto
  with Cons x show ?thesis by simp
qed

lemma detect_single_cycle:
  assumes inv: "graph_inv g" and c0: "is_simple_cycle g c0"
    and only: "\<forall>c. is_simple_cycle g c \<longrightarrow> (\<exists>n. c = rotate n c0)"
  shows "\<exists>c'. detect_circular_references g = [c'] \<and> set c' = set c0"
proof -
  from detect_exactly_one [OF inv c0] obtain c'
    where c': "c' \<in> set (detect_circular_references g)" "\<exists>n. c' = rotate n c0"
      and uniq: "\<And>x. x \<in> set (detect_circular_references g) \<Longrightarrow> \<exists>n. x = rotate n c0 \<Longrightarrow> x = c'"
    by blast
  have "set (detect_circular_references g) = {c'}"
  proof -
    have "\<And>x. x \<in> set (detect_circular_references g) \<Longrightarrow> x = c'"
      using uniq only detect_sound [OF inv] by blast
    with c'(1) show ?thesis by blast
  qed
  moreover have "distinct (detect_circular_references g)"
    using inv by (rule detect_distinct)
  ultimately have "detect_circular_references g = [c']"
    by (rule distinct_singleton_set [rotated])
  moreover from c'(2) have "set c' = set c0" by auto
  ultimately show ?thesis by blast
qed

subsection \<open>The circular-reference detector\<close>

text \<open>
  Claim C7: on every constructed (well-formed) graph the circular-reference detector
  returns, without failing, one \<^verbatim>\<open>circular_reference\<close> anomaly per simple cycle: the cycles
  it reports are simple cycles of the graph, no cycle is reported twice, and every simple
  cycle is reported exactly once, written from one of its nodes. Each anomaly has severity
  medium, the cycle's node list as affected topics and as location the cycle with its
  first node repeated at the end, joined by arrows. A graph without simple cycle gives no
  anomaly, and a graph whose only simple cycle is \<open>c0\<close> gives exactly one, on the nodes of
  \<open>c0\<close>.
\<close>

theorem detect_circular_references_one_per_cycle:
  "graph_inv g \<longrightarrow>
     detect_circular_references_anomalies g
       = Inr (map (\<lambda>c. cycle_anomaly c (hd c)) (detect_circular_references g))
     \<and> (\<forall>c. an_type (cycle_anomaly c (hd c)) = circular_reference
            \<and> an_severity (cycle_anomaly c (hd c)) = medium
            \<and> location (cycle_anomaly c (hd c)) = join arrow (c @ [hd c])
            \<and> affected_topics (cycle_anomaly c (hd c)) = c)
     \<and> distinct (detect_circular_references g)
     \<and> (\<forall>c \<in> set (detect_circular_references g). is_simple_cycle g c)
     \<and> (\<forall>c. is_simple_cycle g c \<longrightarrow>
            (\<exists>!c'. c' \<in> set (detect_circular_references g) \<and> (\<exists>n. c' = rotate n c)))
     \<and> ((\<forall>c. \<not> is_simple_cycle g c) \<longrightarrow> detect_circular_references_anomalies g = Inr [])
     \<and> (\<forall>c0. is_simple_cycle g c0 \<and> (\<forall>c. is_simple_cycle g c \<longrightarrow> (\<exists>n. c = rotate n c0))
            \<longrightarrow> (\<exists>c'. detect_circular_references_anomalies g = Inr [cycle_anomaly c' (hd c')]
                      \<and> set c' = set c0))"
proof (intro impI conjI allI ballI)
  show "detect_circular_references_anomalies g
       = Inr (map (\<lambda>c. cycle_anomaly c (hd c)) (detect_circular_references g))"
    by (rule detect_circular_references_anomalies_eq)
next
  assume "graph_inv g"
  then show "distinct (detect_circular_references g)"
    by (rule detect_distinct)
next
  fix c assume "graph_inv g" "c \<in> set (detect_circular_references g)"
  then show "is_simple_cycle g c"
    by (rule detect_sound)
next
  fix c assume "graph_inv g" "is_simple_cycle g c"
  then show "\<exists>!c'. c' \<in> set (detect_circular_references g) \<and> (\<exists>n. c' = rotate n c)"
    by (rule detect_exactly_one)
next
  assume inv: "graph_inv g" and none: "\<forall>c. \<not> is_simple_cycle g c"
  have "detect_circular_references g = []"
  proof (cases "detect_circular_references g")
    case Nil
    then show ?thesis .
  next
    case (Cons c cs)
    then have "c \<in> set (detect_circular_references g)" by simp
    from detect_sound [OF inv this] none show ?thesis by blast
  qed
  then show "detect_circular_references_anomalies g = Inr []"
    by (simp add: detect_circular_references_anomalies_eq)
next
  fix c0
  assume inv: "graph_inv g"
    and "is_simple_cycle g c0 \<and> (\<forall>c. is_simple_cycle g c \<longrightarrow> (\<exists>n. c = rotate n c0))"
  then obtain c' where "detect_circular_references g = [c']" "set c' = set c0"
    using detect_single_cycle [of g c0] by blast
  then have "detect_circular_references_anomalies g = Inr [cycle_anomaly c' (hd c')]
                      \<and> set c' = set c0"
    by (simp add: detect_circular_references_anomalies_eq)
  then show "\<exists>c'. detect_circular_references_anomalies g = Inr [cycle_anomaly c' (hd c')]
                      \<and> set c' = set c0"
    by (rule exI)
qed (simp_all add: cycle_anomaly_def Anomaly_def)

theorem detect_circular_references_one_per_cycle_witness:
  "graph_inv (build_from_topics cycle_example empty_graph)
   \<and> is_simple_cycle (build_from_topics cycle_example empty_graph) [''A'', ''B'', ''C'']
   \<and> detect_circular_references (build_from_topics cycle_example empty_graph)
       = [[''A'', ''B'', ''C'']]
   \<and> detect_circular_references_anomalies (build_from_topics cycle_example empty_graph)
       = Inr [cycle_anomaly [''A'', ''B'', ''C''] ''A'']
   \<and> location (cycle_anomaly [''A'', ''B'', ''C''] ''A'')
       = ''A'' @ arrow @ ''B'' @ arrow @ ''C'' @ arrow @ ''A''
   \<and> graph_inv (build_from_topics acyclic_example empty_graph)
   \<and> (\<forall>c. \<not> is_simple_cycle (build_from_topics acyclic_example empty_graph) c)
   \<and> detect_circular_references_anomalies (build_from_topics acyclic_example empty_graph) = Inr []"
proof -
  let ?g = "build_from_topics cycle_example empty_graph"
  let ?h = "build_from_topics acyclic_example empty_graph"
  note inst = detect_circular_references_one_per_cycle [of ?g]
  note insth = detect_circular_references_one_per_cycle [of ?h]
  have inv: "graph_inv ?g" and invh: "graph_inv ?h"
    by (simp_all add: graph_inv_build_from_topics graph_inv_empty)
  have cyc: "is_simple_cycle ?g [''A'', ''B'', ''C'']"
    by code_simp
  have cs: "detect_circular_references ?g = [[''A'', ''B'', ''C'']]"
    by code_simp
  have csh: "detect_circular_references ?h = []"
    by code_simp
  from inst inv have "detect_circular_references_anomalies ?g
       = Inr (map (\<lambda>c. cycle_anomaly c (hd c)) (detect_circular_references ?g))"
    by blast
  then have res: "detect_circular_references_anomalies ?g = Inr [cycle_anomaly [''A'', ''B'', ''C''] ''A'']"
    by (simp add: cs)
  from inst inv have "location (cycle_anomaly [''A'', ''B'', ''C''] (hd [''A'', ''B'', ''C'']))
       = join arrow ([''A'', ''B'', ''C''] @ [hd [''A'', ''B'', ''C'']])"
    by blast
  then have loc: "location (cycle_anomaly [''A'', ''B'', ''C''] ''A'')
       = ''A'' @ arrow @ ''B'' @ arrow @ ''C'' @ arrow @ ''A''"
    by simp
  have none: "\<forall>c. \<not> is_simple_cycle ?h c"
  proof (intro allI notI)
    fix c assume "is_simple_cycle ?h c"
    with insth invh have "\<exists>!c'. c' \<in> set (detect_circular_references ?h) \<and> (\<exists>n. c' = rotate n c)"
      by blast
    then show False by (auto simp: csh)
  qed
  with insth invh have resh: "detect_circular_references_anomalies ?h = Inr []"
    by blast
  show ?thesis
    using inv cyc cs res loc invh none resh by blast
qed

subsection \<open>The validation pass\<close>

lemma map_const_replicate:
  "(\<And>x. x \<in> set xs \<Longrightarrow> f x = c) \<Longrightarrow> map f xs = replicate (length xs) c"
  by (induction xs) auto

lemma check_numbering_gaps_members:
  assumes "a \<in> set (check_numbering_gaps py topics)"
  shows "an_type a = numbering_gap \<and> resolution_strategies a = []"
proof -
  from assms obtain ai bi m where "a = gap_anomaly ai bi m"
    by (auto simp: check_numbering_gaps_eq missing_between_def)
  then show ?thesis
    by (simp add: gap_anomaly_def Anomaly_def)
qed

lemma validate_cross_references_members:
  assumes "a \<in> set (validate_cross_references topics)"
  shows "an_type a = broken_cross_reference \<and> resolution_strategies a = []"
proof -
  from assms obtain s r where "a = broken_anomaly s r"
    by (auto simp: validate_cross_references_eq)
  then show ?thesis
    by (simp add: broken_anomaly_def Anomaly_def)
qed

lemma cycle_anomalies_members:
  assumes "detect_circular_references_anomalies g = Inr cyc" and "a \<in> set cyc"
  shows "an_type a = circular_reference \<and> resolution_strategies a = []"
proof -
  from assms obtain c where "a = cycle_anomaly c (hd c)"
    by (auto simp: detect_circular_references_anomalies_eq)
  then show ?thesis
    by (simp add: cycle_anomaly_def Anomaly_def)
qed

lemma find_orphan_content_members:
  assumes "a \<in> set (find_orphan_content g)"
  shows "an_type a = orphan_content \<and> resolution_strategies a = []"
  using assms by (auto simp: find_orphan_content_def orphan_anomaly_fields)

lemma check_duplicates_members:
  assumes "a \<in> set (check_duplicates topics)"
  shows "an_type a = duplicate_topic \<and> resolution_strategies a = []"
  using check_duplicates_fields [of a topics "[]"] assms by (simp add: check_duplicates_def)

lemma map_enumerate_indep:
  "(\<And>i a. a \<in> set xs \<Longrightarrow> h (F i a) = h' a) \<Longrightarrow>
     map h (map (\<lambda>(i, a). F i a) (enumerate n xs)) = map h' xs"
  by (induction xs arbitrary: n) auto

lemma generate_resolution_strategies_types:
  "map an_type (generate_resolution_strategies llm xs) = map an_type xs"
  unfolding generate_resolution_strategies_def
  by (rule map_enumerate_indep) simp

lemma generate_resolution_strategies_strip:
  assumes "\<And>a. a \<in> set xs \<Longrightarrow> resolution_strategies a = []"
  shows "map (\<lambda>a. a\<lparr>resolution_strategies := []\<rparr>) (generate_resolution_strategies llm xs) = xs"
proof -
  have "map (\<lambda>a. a\<lparr>resolution_strategies := []\<rparr>) (generate_resolution_strategies llm xs)
          = map (\<lambda>a. a) xs"
    unfolding generate_resolution_strategies_def
    using assms by (intro map_enumerate_indep) auto
  then show ?thesis by simp
qed

text \<open>
  Claim C2, as stated: the returned list has the duplicate anomalies first, then the
  numbering gaps, the broken references, the cycles and the orphans. On the topics
  \<^verbatim>\<open>1\<close>, \<^verbatim>\<open>3\<close>, \<^verbatim>\<open>3\<close> the pass returns the numbering gap first and the duplicate last.
\<close>

theorem validate_order_counterexample:
  "map_sum id (map an_type)
     (validate ascii_python (\<lambda>i a. []) order_example
        (build_from_topics order_example empty_graph))
   = Inr [numbering_gap, orphan_content, orphan_content, duplicate_topic]"
  by code_simp

text \<open>
  Claim C2, amended: for every topic list and graph the validation pass returns, without
  failing, the concatenation of the five detector outputs in the order numbering gaps,
  broken cross-references, circular references, orphans, duplicates; the only change to
  the detectors' anomalies is that resolution strategies are stored in them.
\<close>

theorem validate_detector_order:
  "\<exists>res cyc.
     validate py llm topics g = Inr res
     \<and> detect_circular_references_anomalies g = Inr cyc
     \<and> map (\<lambda>a. a\<lparr>resolution_strategies := []\<rparr>) res
         = check_numbering_gaps py topics @ validate_cross_references topics @ cyc
           @ find_orphan_content g @ check_duplicates topics
     \<and> map an_type res
         = replicate (length (check_numbering_gaps py topics)) numbering_gap
           @ replicate (length (validate_cross_references topics)) broken_cross_reference
           @ replicate (length cyc) circular_reference
           @ replicate (length (find_orphan_content g)) orphan_content
           @ replicate (length (check_duplicates topics)) duplicate_topic"
proof -
  obtain cyc where cyc: "detect_circular_references_anomalies g = Inr cyc"
    by (simp add: detect_circular_references_anomalies_eq)
  let ?all = "check_numbering_gaps py topics @ validate_cross_references topics @ cyc
           @ find_orphan_content g @ check_duplicates topics"
  let ?res = "generate_resolution_strategies llm ?all"
  have v: "validate py llm topics g = Inr ?res"
    by (simp add: validate_def cyc)
  have "\<And>a. a \<in> set ?all \<Longrightarrow> resolution_strategies a = []"
    using check_numbering_gaps_members validate_cross_references_members
      cycle_anomalies_members [OF cyc] find_orphan_content_members check_duplicates_members
    by auto
  then have strip: "map (\<lambda>a. a\<lparr>resolution_strategies := []\<rparr>) ?res = ?all"
    by (rule generate_resolution_strategies_strip)
  have types: "map an_type ?res
         = replicate (length (check_numbering_gaps py topics)) numbering_gap
           @ replicate (length (validate_cross_references topics)) broken_cross_reference
           @ replicate (length cyc) circular_reference
           @ replicate (length (find_orphan_content g)) orphan_content
           @ replicate (length (check_duplicates topics)) duplicate_topic"
    unfolding generate_resolution_strategies_types map_append
    using check_numbering_gaps_members validate_cross_references_members
      cycle_anomalies_members [OF cyc] find_orphan_content_members check_duplicates_members
    by (simp add: map_const_replicate)
  from v cyc strip types show ?thesis by blast
qed

end
